theory Spec2Isabelle
  imports
    Main
    "HOL-Library.Word"
    "HOL-Library.Finite_Map"
    "HOL-Library.Char_ord"
    "HOL-Library.List_Lexorder"
begin

unbundle bit_operations_syntax

section \<open>The consistent-hashing ring of \<^verbatim>\<open>consistent.go\<close>\<close>

text \<open>
  The ring is embedded as a record that is passed through every operation and returned
  updated.  Go maps are finite maps (\<open>fmap\<close>), the slice \<open>sortedHashes\<close> is a list,
  \<open>uint32\<close> is a 32-bit word with its unsigned order.  Go's \<open>int\<close> and \<open>int64\<close> are
  taken as 64 bits wide and modelled by \<open>int\<close>; the one place where the width is
  observable, the product \<open>defaultNumberOfReplicas * 4\<close> used as a divisor, has its
  wrap-around written out.  The read/write lock is not modelled: every operation holds it
  from entry to exit, so operations are atomic steps on the record.  The field \<open>scratch\<close>
  of the Go struct is never read or written and is left out.

  A call ends in one of three ways: it returns (\<open>Inr\<close>), it returns the package's error
  or panics (\<open>Inl\<close>), or, for the two lookups that walk the ring, it does not return at
  all (\<open>None\<close>).
\<close>

type_synonym uint32 = "32 word"

datatype error =
    ErrEmptyCircle
  | PanicDivideByZero
  | PanicIndexOutOfRange
  | PanicMakeslice

record Consistent =
  circle :: "(uint32, string) fmap"
  members :: "(string, bool) fmap"
  membersReplicas :: "(string, int) fmap"
  sortedHashes :: "uint32 list"
  defaultNumberOfReplicas :: int
  count :: int
  customHasher :: "(string \<Rightarrow> uint32) option"
  useFnv :: bool

record Config =
  DefaultNumberOfReplicas :: int
  UseFnv :: bool
  CustomHasher :: "(string \<Rightarrow> uint32) option"

record SetElt =
  Elt :: string
  NumberOfReplicas :: int

subsection \<open>Library functions the package calls\<close>

text \<open>
  \<open>strconv.Itoa\<close>: the decimal text of an integer, most significant digit first, with a
  leading minus sign for a negative one.
\<close>

definition digit_char :: "nat \<Rightarrow> char" where
  "digit_char d = char_of (48 + d)"

fun utoa :: "nat \<Rightarrow> string" where
  "utoa n = (if n < 10 then [digit_char n] else utoa (n div 10) @ [digit_char (n mod 10)])"

declare utoa.simps [simp del]

definition Itoa :: "int \<Rightarrow> string" where
  "Itoa i = (if i < 0 then CHR ''-'' # utoa (nat (- i)) else utoa (nat i))"

text \<open>
  \<open>crc32.ChecksumIEEE\<close>: the reflected CRC-32 with polynomial \<open>0xEDB88320\<close>, initial
  value and final complement \<open>0xFFFFFFFF\<close>, computed bit by bit.
\<close>

definition crc32_shift :: "uint32 \<Rightarrow> uint32" where
  "crc32_shift x = (if bit x 0 then drop_bit 1 x XOR 0xEDB88320 else drop_bit 1 x)"

definition crc32_update :: "uint32 \<Rightarrow> char \<Rightarrow> uint32" where
  "crc32_update x b = (crc32_shift ^^ 8) (x XOR of_char b)"

definition ChecksumIEEE :: "string \<Rightarrow> uint32" where
  "ChecksumIEEE bs = NOT (foldl crc32_update (NOT 0) bs)"

text \<open>
  \<open>fnv.New32a\<close>, \<open>Write\<close>, \<open>Sum32\<close>: FNV-1a on 32 bits, offset basis 2166136261 and
  prime 16777619; each byte is xor-ed in and the state multiplied by the prime.
\<close>

definition fnv32a :: "string \<Rightarrow> uint32" where
  "fnv32a bs = foldl (\<lambda>h b. (h XOR of_char b) * 16777619) 2166136261 bs"

text \<open>
  \<open>sort.Search n f\<close>: binary search for the least index in \<open>[0, n)\<close> at which \<open>f\<close> holds,
  \<open>n\<close> when there is none; \<open>f\<close> is only called on indices below \<open>n\<close>.
\<close>

function Search_loop :: "(nat \<Rightarrow> bool) \<Rightarrow> nat \<Rightarrow> nat \<Rightarrow> nat" where
  "Search_loop f i j =
     (if i < j then
        (let h = (i + j) div 2 in
         if \<not> f h then Search_loop f (h + 1) j else Search_loop f i h)
      else i)"
  by pat_completeness auto
termination
  by (relation "measure (\<lambda>(f, i, j). j - i)") auto

declare Search_loop.simps [simp del]

definition Search :: "nat \<Rightarrow> (nat \<Rightarrow> bool) \<Rightarrow> nat" where
  "Search n f = Search_loop f 0 n"

subsection \<open>Hashing\<close>

definition hashKeyCRC32 :: "string \<Rightarrow> uint32" where
  "hashKeyCRC32 key =
     (if length key < 64 then
        (let scratch = take 64 key @ replicate (64 - length key) (CHR 0x00)
         in ChecksumIEEE (take (length key) scratch))
      else ChecksumIEEE key)"

definition hashKeyFnv :: "string \<Rightarrow> uint32" where
  "hashKeyFnv key = fnv32a key"

definition hashKey :: "Consistent \<Rightarrow> string \<Rightarrow> uint32" where
  "hashKey c key =
     (case customHasher c of
        Some h \<Rightarrow> h key
      | None \<Rightarrow> if useFnv c then hashKeyFnv key else hashKeyCRC32 key)"

definition eltKey :: "string \<Rightarrow> int \<Rightarrow> string" where
  "eltKey elt idx = Itoa idx @ elt"

subsection \<open>Construction\<close>

definition New :: "Config \<Rightarrow> Consistent" where
  "New conf =
     \<lparr> circle = fmempty,
       members = fmempty,
       membersReplicas = fmempty,
       sortedHashes = [],
       defaultNumberOfReplicas =
         (if DefaultNumberOfReplicas conf = 0 then 43 else DefaultNumberOfReplicas conf),
       count = 0,
       customHasher = CustomHasher conf,
       useFnv = UseFnv conf \<rparr>"

subsection \<open>Rebuilding the sorted index\<close>

text \<open>
  \<open>updateSortedHashes\<close> collects the keys of \<open>circle\<close> and sorts them.  Go ranges over a
  map in an unspecified order; the model enumerates the keys in some order and sorts, as
  the code does.  Whether the old backing array is reused or dropped changes the capacity
  of the slice only, never its contents, so the capacity is not part of the state.  What
  the storage test can do is panic: it divides by \<open>defaultNumberOfReplicas * 4\<close>, and
  that product, computed in 64-bit two's complement, can be zero.
\<close>

definition mul_int64 :: "int \<Rightarrow> int \<Rightarrow> int" where
  "mul_int64 a b = (a * b + 2 ^ 63) mod 2 ^ 64 - 2 ^ 63"

definition updateSortedHashes :: "Consistent \<Rightarrow> error + Consistent" where
  "updateSortedHashes c =
     (if mul_int64 (defaultNumberOfReplicas c) 4 = 0 then Inl PanicDivideByZero
      else Inr (c\<lparr>sortedHashes := sort (sorted_list_of_fset (fmdom (circle c)))\<rparr>))"

subsection \<open>Membership mutation\<close>

function add_loop :: "Consistent \<Rightarrow> string \<Rightarrow> int \<Rightarrow> int \<Rightarrow> Consistent" where
  "add_loop c elt numberOfReplicas i =
     (if i < numberOfReplicas then
        add_loop (c\<lparr>circle := fmupd (hashKey c (eltKey elt i)) elt (circle c)\<rparr>)
          elt numberOfReplicas (i + 1)
      else c)"
  by pat_completeness auto
termination
  by (relation "measure (\<lambda>(c, elt, n, i). nat (n - i))") auto

declare add_loop.simps [simp del]

definition add :: "Consistent \<Rightarrow> string \<Rightarrow> int \<Rightarrow> error + Consistent" where
  "add c elt numberOfReplicas =
     (let c1 = add_loop c elt numberOfReplicas 0;
          c2 = c1\<lparr>members := fmupd elt True (members c1)\<rparr>;
          c3 = c2\<lparr>membersReplicas := fmupd elt numberOfReplicas (membersReplicas c2)\<rparr>
      in case updateSortedHashes c3 of
           Inl e \<Rightarrow> Inl e
         | Inr c4 \<Rightarrow> Inr (c4\<lparr>count := count c4 + 1\<rparr>))"

text \<open>The variadic argument of \<open>Add\<close> is the list of the integers passed.\<close>

definition Add :: "Consistent \<Rightarrow> string \<Rightarrow> int list \<Rightarrow> error + Consistent" where
  "Add c elt numbersOfReplicas =
     (if elt |\<in>| fmdom (members c) then Inr c
      else
        (let numberOfReplicas =
               (case numbersOfReplicas of
                  [] \<Rightarrow> defaultNumberOfReplicas c
                | r # _ \<Rightarrow> r)
         in add c elt numberOfReplicas))"

function remove_loop :: "Consistent \<Rightarrow> string \<Rightarrow> int \<Rightarrow> int \<Rightarrow> Consistent" where
  "remove_loop c elt numberOfReplicas i =
     (if i < numberOfReplicas then
        remove_loop (c\<lparr>circle := fmdrop (hashKey c (eltKey elt i)) (circle c)\<rparr>)
          elt numberOfReplicas (i + 1)
      else c)"
  by pat_completeness auto
termination
  by (relation "measure (\<lambda>(c, elt, n, i). nat (n - i))") auto

declare remove_loop.simps [simp del]

definition remove :: "Consistent \<Rightarrow> string \<Rightarrow> int \<Rightarrow> error + Consistent" where
  "remove c elt numberOfReplicas =
     (let c1 = remove_loop c elt numberOfReplicas 0;
          c2 = c1\<lparr>members := fmdrop elt (members c1)\<rparr>;
          c3 = c2\<lparr>membersReplicas := fmdrop elt (membersReplicas c2)\<rparr>
      in case updateSortedHashes c3 of
           Inl e \<Rightarrow> Inl e
         | Inr c4 \<Rightarrow> Inr (c4\<lparr>count := count c4 - 1\<rparr>))"

definition Remove :: "Consistent \<Rightarrow> string \<Rightarrow> error + (Consistent \<times> bool)" where
  "Remove c elt =
     (if elt |\<notin>| fmdom (members c) then Inr (c, False)
      else
        (case fmlookup (membersReplicas c) elt of
           None \<Rightarrow> Inr (c, False)
         | Some numberOfReplicas \<Rightarrow>
             (case remove c elt numberOfReplicas of
                Inl e \<Rightarrow> Inl e
              | Inr c' \<Rightarrow> Inr (c', True))))"

text \<open>
  \<open>Set\<close> and \<open>SetWithReplicas\<close> first range over \<open>members\<close>.  The only entry deleted
  while ranging is the one being visited, so the loop visits exactly the keys present at
  its start; \<open>ks\<close> is that enumeration.
\<close>

fun Set_remove_loop :: "string list \<Rightarrow> string list \<Rightarrow> Consistent \<Rightarrow> error + Consistent" where
  "Set_remove_loop [] elts c = Inr c"
| "Set_remove_loop (k # ks) elts c =
     (let found = (\<exists>v \<in> set elts. k = v) in
      if \<not> found then
        (case fmlookup (membersReplicas c) k of
           Some v \<Rightarrow>
             (case remove c k v of
                Inl e \<Rightarrow> Inl e
              | Inr c' \<Rightarrow> Set_remove_loop ks elts c')
         | None \<Rightarrow> Set_remove_loop ks elts c)
      else Set_remove_loop ks elts c)"

fun Set_add_loop :: "string list \<Rightarrow> Consistent \<Rightarrow> error + Consistent" where
  "Set_add_loop [] c = Inr c"
| "Set_add_loop (v # vs) c =
     (if v |\<in>| fmdom (members c) then Set_add_loop vs c
      else
        (case add c v (defaultNumberOfReplicas c) of
           Inl e \<Rightarrow> Inl e
         | Inr c' \<Rightarrow> Set_add_loop vs c'))"

definition Set_from :: "string list \<Rightarrow> Consistent \<Rightarrow> string list \<Rightarrow> error + Consistent" where
  "Set_from ks c elts =
     (case Set_remove_loop ks elts c of
        Inl e \<Rightarrow> Inl e
      | Inr c1 \<Rightarrow> Set_add_loop elts c1)"

definition Set :: "Consistent \<Rightarrow> string list \<Rightarrow> error + Consistent" where
  "Set c elts = Set_from (sorted_list_of_fset (fmdom (members c))) c elts"

fun SetWithReplicas_add_loop :: "SetElt list \<Rightarrow> Consistent \<Rightarrow> error + Consistent" where
  "SetWithReplicas_add_loop [] c = Inr c"
| "SetWithReplicas_add_loop (v # vs) c =
     (if Elt v |\<in>| fmdom (members c) then SetWithReplicas_add_loop vs c
      else
        (let n = (if NumberOfReplicas v = 0 then defaultNumberOfReplicas c
                  else NumberOfReplicas v)
         in case add c (Elt v) n of
              Inl e \<Rightarrow> Inl e
            | Inr c' \<Rightarrow> SetWithReplicas_add_loop vs c'))"

definition SetWithReplicas_from ::
    "string list \<Rightarrow> Consistent \<Rightarrow> SetElt list \<Rightarrow> error + Consistent" where
  "SetWithReplicas_from ks c elts =
     (case Set_remove_loop ks (map Elt elts) c of
        Inl e \<Rightarrow> Inl e
      | Inr c1 \<Rightarrow> SetWithReplicas_add_loop elts c1)"

definition SetWithReplicas :: "Consistent \<Rightarrow> SetElt list \<Rightarrow> error + Consistent" where
  "SetWithReplicas c elts =
     SetWithReplicas_from (sorted_list_of_fset (fmdom (members c))) c elts"

definition Members :: "Consistent \<Rightarrow> string list" where
  "Members c = sorted_list_of_fset (fmdom (members c))"

definition MemberReplicas :: "Consistent \<Rightarrow> (string, int) fmap" where
  "MemberReplicas c = membersReplicas c"

subsection \<open>Lookup\<close>

text \<open>Reading a Go map at a key it does not hold gives the zero value, the empty string.\<close>

definition circle_at :: "Consistent \<Rightarrow> uint32 \<Rightarrow> string" where
  "circle_at c h = (case fmlookup (circle c) h of None \<Rightarrow> [] | Some elt \<Rightarrow> elt)"

definition len_circle :: "Consistent \<Rightarrow> nat" where
  "len_circle c = fcard (fmdom (circle c))"

definition search :: "Consistent \<Rightarrow> uint32 \<Rightarrow> nat" where
  "search c key =
     (let i = Search (length (sortedHashes c)) (\<lambda>x. sortedHashes c ! x > key)
      in if i \<ge> length (sortedHashes c) then 0 else i)"

definition Get :: "Consistent \<Rightarrow> string \<Rightarrow> error + string" where
  "Get c name =
     (if len_circle c = 0 then Inl ErrEmptyCircle
      else
        (let key = hashKey c name;
             i = search c key
         in if i < length (sortedHashes c) then Inr (circle_at c (sortedHashes c ! i))
            else Inl PanicIndexOutOfRange))"

partial_function (option) GetTwo_loop ::
    "Consistent \<Rightarrow> string \<Rightarrow> nat \<Rightarrow> nat \<Rightarrow> string \<Rightarrow> (error + string) option" where
  "GetTwo_loop c a start i b =
     (if i \<noteq> start then
        (let i1 = (if i \<ge> length (sortedHashes c) then 0 else i) in
         if i1 < length (sortedHashes c) then
           (let b1 = circle_at c (sortedHashes c ! i1) in
            if b1 \<noteq> a then Some (Inr b1)
            else GetTwo_loop c a start (i1 + 1) b1)
         else Some (Inl PanicIndexOutOfRange))
      else Some (Inr b))"

definition GetTwo :: "Consistent \<Rightarrow> string \<Rightarrow> (error + string \<times> string) option" where
  "GetTwo c name =
     (if len_circle c = 0 then Some (Inl ErrEmptyCircle)
      else
        (let key = hashKey c name;
             i = search c key
         in if i < length (sortedHashes c) then
              (let a = circle_at c (sortedHashes c ! i) in
               if count c = 1 then Some (Inr (a, []))
               else
                 (case GetTwo_loop c a i (i + 1) [] of
                    None \<Rightarrow> None
                  | Some (Inl e) \<Rightarrow> Some (Inl e)
                  | Some (Inr b) \<Rightarrow> Some (Inr (a, b))))
            else Some (Inl PanicIndexOutOfRange)))"

fun sliceContainsMember :: "string list \<Rightarrow> string \<Rightarrow> bool" where
  "sliceContainsMember [] member = False"
| "sliceContainsMember (m # ms) member =
     (if m = member then True else sliceContainsMember ms member)"

partial_function (option) GetN_loop ::
    "Consistent \<Rightarrow> int \<Rightarrow> nat \<Rightarrow> nat \<Rightarrow> string list \<Rightarrow> (error + string list) option" where
  "GetN_loop c n start i res =
     (if i \<noteq> start then
        (let i1 = (if i \<ge> length (sortedHashes c) then 0 else i) in
         if i1 < length (sortedHashes c) then
           (let elem = circle_at c (sortedHashes c ! i1);
                res1 = (if \<not> sliceContainsMember res elem then res @ [elem] else res)
            in if int (length res1) = n then Some (Inr res1)
               else GetN_loop c n start (i1 + 1) res1)
         else Some (Inl PanicIndexOutOfRange))
      else Some (Inr res))"

definition GetN :: "Consistent \<Rightarrow> string \<Rightarrow> int \<Rightarrow> (error + string list) option" where
  "GetN c name n0 =
     (if len_circle c = 0 then Some (Inl ErrEmptyCircle)
      else
        (let n = (if count c < n0 then count c else n0);
             key = hashKey c name;
             i = search c key
         in if n < 0 then Some (Inl PanicMakeslice)
            else if i < length (sortedHashes c) then
              (let elem = circle_at c (sortedHashes c ! i);
                   res = [elem]
               in if int (length res) = n then Some (Inr res)
                  else GetN_loop c n i (i + 1) res)
            else Some (Inl PanicIndexOutOfRange)))"

subsection \<open>Notions used to state the properties\<close>

text \<open>
  The divisor of the storage test in \<open>updateSortedHashes\<close> is not zero.  \<open>New\<close> replaces
  a default of 0 by 43, so among the 64-bit values only \<open>2^62\<close>, \<open>- 2^62\<close> and \<open>- 2^63\<close>
  fail this.
\<close>

definition rebuild_ok :: "Consistent \<Rightarrow> bool" where
  "rebuild_ok c \<longleftrightarrow> mul_int64 (defaultNumberOfReplicas c) 4 \<noteq> 0"

text \<open>The positions of member \<open>m\<close> with replica count \<open>r\<close>: the hashes of \<open>decimal(i) ++ m\<close>
  for \<open>0 \<le> i < r\<close>.\<close>

definition replica_positions :: "Consistent \<Rightarrow> string \<Rightarrow> int \<Rightarrow> uint32 set" where
  "replica_positions c m r = (\<lambda>i. hashKey c (Itoa i @ m)) ` {0..<r}"

text \<open>The sorted index holds exactly the keys of the position map, once each, ascending.\<close>

definition index_matches :: "Consistent \<Rightarrow> bool" where
  "index_matches c \<longleftrightarrow>
     set (sortedHashes c) = fmdom' (circle c) \<and>
     length (sortedHashes c) = fcard (fmdom (circle c)) \<and>
     sorted (sortedHashes c)"

text \<open>Every active member has a stored replica count.\<close>

definition replicas_recorded :: "Consistent \<Rightarrow> bool" where
  "replicas_recorded c \<longleftrightarrow> fmdom (members c) |\<subseteq>| fmdom (membersReplicas c)"

text \<open>
  The position that serves hash \<open>h\<close> on a ring with positions \<open>P\<close>: the least position
  strictly greater than \<open>h\<close>, or the least position of all when none is greater.
\<close>

definition ring_successor :: "uint32 set \<Rightarrow> uint32 \<Rightarrow> uint32" where
  "ring_successor P h = (if \<exists>p \<in> P. h < p then Min {p \<in> P. h < p} else Min P)"

text \<open>The positions a member owns.\<close>

definition positions_of :: "Consistent \<Rightarrow> string \<Rightarrow> uint32 set" where
  "positions_of c m = {h \<in> fmdom' (circle c). fmlookup (circle c) h = Some m}"

text \<open>The stored replica count of a member, 0 when there is none.\<close>

definition stored_replicas :: "Consistent \<Rightarrow> string \<Rightarrow> int" where
  "stored_replicas c m = (case fmlookup (membersReplicas c) m of None \<Rightarrow> 0 | Some r \<Rightarrow> r)"

text \<open>
  What \<open>Set c elts\<close> is to remove and to add: the members not listed and the listed
  names that are not members, with the positions computed for them, from the stored
  replica count for a removed member and from the default for an added one.
\<close>

definition removed_by_Set :: "Consistent \<Rightarrow> string list \<Rightarrow> string set" where
  "removed_by_Set c elts = {k \<in> fmdom' (members c). k \<notin> set elts}"

definition added_by_Set :: "Consistent \<Rightarrow> string list \<Rightarrow> string set" where
  "added_by_Set c elts = {v \<in> set elts. v \<notin> fmdom' (members c)}"

definition removed_positions :: "Consistent \<Rightarrow> string list \<Rightarrow> uint32 set" where
  "removed_positions c elts =
     (\<Union>k \<in> removed_by_Set c elts. replica_positions c k (stored_replicas c k))"

definition added_positions :: "Consistent \<Rightarrow> string list \<Rightarrow> uint32 set" where
  "added_positions c elts =
     (\<Union>v \<in> added_by_Set c elts. replica_positions c v (defaultNumberOfReplicas c))"

text \<open>Rings all of whose members were added with a replica count that is not positive.\<close>

inductive nonpositive_ring :: "Consistent \<Rightarrow> bool" where
  fresh: "nonpositive_ring (New conf)"
| added: "nonpositive_ring c \<Longrightarrow> r \<le> 0 \<Longrightarrow> Add c elt [r] = Inr c' \<Longrightarrow> nonpositive_ring c'"

text \<open>The states that \<open>add\<close> and \<open>remove\<close> return when the rebuild does not panic.\<close>

definition add_result :: "Consistent \<Rightarrow> string \<Rightarrow> int \<Rightarrow> Consistent" where
  "add_result c elt n =
     c\<lparr>circle := circle (add_loop c elt n 0),
       members := fmupd elt True (members c),
       membersReplicas := fmupd elt n (membersReplicas c),
       sortedHashes := sorted_list_of_fset (fmdom (circle (add_loop c elt n 0))),
       count := count c + 1\<rparr>"

definition remove_result :: "Consistent \<Rightarrow> string \<Rightarrow> int \<Rightarrow> Consistent" where
  "remove_result c elt n =
     c\<lparr>circle := circle (remove_loop c elt n 0),
       members := fmdrop elt (members c),
       membersReplicas := fmdrop elt (membersReplicas c),
       sortedHashes := sorted_list_of_fset (fmdom (circle (remove_loop c elt n 0))),
       count := count c - 1\<rparr>"

text \<open>
  The stored replica counts are those of the members, and \<open>count\<close> is the number of
  members.
\<close>

definition members_counted :: "Consistent \<Rightarrow> bool" where
  "members_counted c \<longleftrightarrow>
     fmdom (membersReplicas c) = fmdom (members c) \<and>
     count c = int (fcard (fmdom (members c)))"

text \<open>
  Every position is owned by a member and is one of the replica positions computed from
  the stored replica count of its owner.
\<close>

definition positions_recorded :: "Consistent \<Rightarrow> bool" where
  "positions_recorded c \<longleftrightarrow>
     (\<forall>h m. fmlookup (circle c) h = Some m \<longrightarrow>
        m |\<in>| fmdom (members c) \<and>
        (\<exists>r. fmlookup (membersReplicas c) m = Some r \<and> h \<in> replica_positions c m r))"

text \<open>
  The rings that the operations of the package build.  \<open>Set\<close> and \<open>SetWithReplicas\<close> may
  range over the members in any order.
\<close>

inductive built :: "Consistent \<Rightarrow> bool" where
  by_New: "built (New conf)"
| by_Add: "built c \<Longrightarrow> Add c elt rs = Inr c' \<Longrightarrow> built c'"
| by_Remove: "built c \<Longrightarrow> Remove c elt = Inr (c', b) \<Longrightarrow> built c'"
| by_Set: "built c \<Longrightarrow> set ks = fmdom' (members c) \<Longrightarrow>
           Set_from ks c elts = Inr c' \<Longrightarrow> built c'"
| by_SetWithReplicas: "built c \<Longrightarrow> set ks = fmdom' (members c) \<Longrightarrow>
           SetWithReplicas_from ks c selts = Inr c' \<Longrightarrow> built c'"

subsection \<open>Example rings\<close>

definition default_config :: Config where
  "default_config = \<lparr>DefaultNumberOfReplicas = 0, UseFnv = False, CustomHasher = None\<rparr>"

text \<open>A custom hasher with collisions: half the sum of the bytes.\<close>

definition byte_sum_hasher :: "string \<Rightarrow> uint32" where
  "byte_sum_hasher s = of_nat (sum_list (map of_char s) div 2)"

definition byte_sum_config :: Config where
  "byte_sum_config =
     \<lparr>DefaultNumberOfReplicas = 1, UseFnv = False, CustomHasher = Some byte_sum_hasher\<rparr>"

definition fnv_config :: Config where
  "fnv_config = \<lparr>DefaultNumberOfReplicas = 0, UseFnv = True, CustomHasher = None\<rparr>"

text \<open>
  With the byte-sum hasher \<open>''0B''\<close> and \<open>''0C''\<close> collide at 57, and \<open>''0A''\<close> hashes
  to 56.  \<open>ring_CBA\<close> is the ring after \<open>Add C 1\<close>, \<open>Add B 1\<close>, \<open>Add A 1\<close>, and
  \<open>ring_BA\<close> the ring after the further \<open>Remove C\<close>.
\<close>

definition ring_CBA :: Consistent where
  "ring_CBA =
     add_result (add_result (add_result (New byte_sum_config) ''C'' 1) ''B'' 1) ''A'' 1"

definition ring_BA :: Consistent where
  "ring_BA = remove_result ring_CBA ''C'' 1"

text \<open>
  \<open>ring_AB\<close> is the ring after \<open>Add A 1\<close>, \<open>Add B 1\<close> with the byte-sum hasher (positions
  56 and 57), and \<open>ring_BC\<close> the ring after the further \<open>Set [B, C]\<close>.
\<close>

definition ring_AB :: Consistent where
  "ring_AB = add_result (add_result (New byte_sum_config) ''A'' 1) ''B'' 1"

definition ring_BC :: Consistent where
  "ring_BC = add_result (remove_result ring_AB ''A'' 1) ''C'' 1"

text \<open>The ring after a list of \<open>Add\<close> calls, as long as they return.\<close>

fun Add_all :: "Consistent \<Rightarrow> (string \<times> int list) list \<Rightarrow> error + Consistent" where
  "Add_all c [] = Inr c"
| "Add_all c ((elt, rs) # calls) =
     (case Add c elt rs of Inl e \<Rightarrow> Inl e | Inr c' \<Rightarrow> Add_all c' calls)"

declare GetTwo_loop.simps [code]
declare GetN_loop.simps [code]

subsection \<open>The walk of \<open>GetN\<close>\<close>

text \<open>
  The members of a list in the order of their first occurrence.
\<close>

function first_occurrences :: "'a list \<Rightarrow> 'a list" where
  "first_occurrences [] = []"
| "first_occurrences (x # xs) = x # first_occurrences (filter (\<lambda>y. y \<noteq> x) xs)"
  by pat_completeness auto
termination
  by (relation "measure length") (auto simp: less_Suc_eq_le)

text \<open>
  The positions of the ring in ascending order, rotated to start at the position that
  serves hash \<open>h\<close>; and the members in the order in which they are first met on that
  walk.
\<close>

definition ring_order :: "Consistent \<Rightarrow> uint32 \<Rightarrow> uint32 list" where
  "ring_order c h =
     (let xs = sorted_list_of_fset (fmdom (circle c));
          p = ring_successor (fmdom' (circle c)) h
      in dropWhile (\<lambda>q. q \<noteq> p) xs @ takeWhile (\<lambda>q. q \<noteq> p) xs)"

definition ring_walk :: "Consistent \<Rightarrow> string \<Rightarrow> string list" where
  "ring_walk c name = first_occurrences (map (circle_at c) (ring_order c (hashKey c name)))"

text \<open>
  The loop of \<open>GetN\<close> in closed form.  \<open>owner_at c j\<close> is the member read at index \<open>j\<close>
  of the sorted index, \<open>push_new\<close> the append of an element not yet collected,
  \<open>pending len start i\<close> the indices the loop still visits before it returns to
  \<open>start\<close> when its counter is \<open>i\<close>, and \<open>collect\<close> the result of visiting a list of
  owners.
\<close>

definition owner_at :: "Consistent \<Rightarrow> nat \<Rightarrow> string" where
  "owner_at c j = circle_at c (sortedHashes c ! j)"

definition push_new :: "string list \<Rightarrow> string \<Rightarrow> string list" where
  "push_new res elem = (if \<not> sliceContainsMember res elem then res @ [elem] else res)"

definition pending :: "nat \<Rightarrow> nat \<Rightarrow> nat \<Rightarrow> nat list" where
  "pending len start i = (if start < i then [i..<len] @ [0..<start] else [i..<start])"

fun collect :: "int \<Rightarrow> string list \<Rightarrow> string list \<Rightarrow> string list" where
  "collect n res [] = res"
| "collect n res (elem # elems) =
     (let res1 = (if \<not> sliceContainsMember res elem then res @ [elem] else res)
      in if int (length res1) = n then res1 else collect n res1 elems)"

text \<open>
  Rings with a member that owns no position: \<open>Add a 1\<close>, \<open>Add b 0\<close> on the default
  configuration, and \<open>Add A 2\<close>, \<open>Add b 0\<close> with the byte-sum hasher.
\<close>

definition ring_a_b0 :: Consistent where
  "ring_a_b0 = add_result (add_result (New default_config) ''a'' 1) ''b'' 0"

definition ring_A2_b0 :: Consistent where
  "ring_A2_b0 = add_result (add_result (New byte_sum_config) ''A'' 2) ''b'' 0"

section \<open>Frame lemmas\<close>

lemma hashKey_cong:
  "customHasher c' = customHasher c \<Longrightarrow> useFnv c' = useFnv c \<Longrightarrow> hashKey c' = hashKey c"
  by (rule ext) (simp add: hashKey_def)

lemma replica_positions_cong:
  "customHasher c' = customHasher c \<Longrightarrow> useFnv c' = useFnv c \<Longrightarrow>
   replica_positions c' = replica_positions c"
  using hashKey_cong[of c' c] by (intro ext) (simp add: replica_positions_def)

lemma add_loop_frame:
  "add_loop c elt n i = c\<lparr>circle := circle (add_loop c elt n i)\<rparr>"
proof (induction c elt n i rule: add_loop.induct)
  case (1 c elt n i)
  show ?case
  proof (cases "i < n")
    case True
    let ?c1 = "c\<lparr>circle := fmupd (hashKey c (eltKey elt i)) elt (circle c)\<rparr>"
    have step: "add_loop c elt n i = add_loop ?c1 elt n (i + 1)"
      by (subst add_loop.simps) (simp add: True)
    have "add_loop ?c1 elt n (i + 1) = ?c1\<lparr>circle := circle (add_loop ?c1 elt n (i + 1))\<rparr>"
      by (rule "1.IH"[OF True])
    also have "\<dots> = c\<lparr>circle := circle (add_loop ?c1 elt n (i + 1))\<rparr>" by simp
    finally show ?thesis by (simp only: step)
  next
    case False
    then show ?thesis by (simp add: add_loop.simps)
  qed
qed

lemma add_loop_lookup_from:
  "fmlookup (circle (add_loop c elt n i)) h =
     (if h \<in> (\<lambda>j. hashKey c (eltKey elt j)) ` {i..<n} then Some elt else fmlookup (circle c) h)"
proof (induction c elt n i rule: add_loop.induct)
  case (1 c elt n i)
  show ?case
  proof (cases "i < n")
    case True
    let ?c1 = "c\<lparr>circle := fmupd (hashKey c (eltKey elt i)) elt (circle c)\<rparr>"
    have hk: "hashKey ?c1 = hashKey c"
      by (rule hashKey_cong) simp_all
    have split: "{i..<n} = insert i {i + 1..<n}" using True by auto
    have step: "add_loop c elt n i = add_loop ?c1 elt n (i + 1)"
      by (subst add_loop.simps) (simp add: True)
    have "fmlookup (circle (add_loop c elt n i)) h =
       (if h \<in> (\<lambda>j. hashKey c (eltKey elt j)) ` {i + 1..<n} then Some elt
        else fmlookup (circle ?c1) h)"
      unfolding step using "1.IH"[OF True] by (simp only: hk)
    also have "\<dots> = (if h \<in> (\<lambda>j. hashKey c (eltKey elt j)) ` insert i {i + 1..<n} then Some elt
        else fmlookup (circle c) h)"
      by auto
    finally show ?thesis by (simp only: split)
  next
    case False
    then show ?thesis by (simp add: add_loop.simps)
  qed
qed

lemma add_loop_lookup:
  "fmlookup (circle (add_loop c elt n 0)) h =
     (if h \<in> replica_positions c elt n then Some elt else fmlookup (circle c) h)"
  by (simp add: add_loop_lookup_from replica_positions_def eltKey_def)

lemma remove_loop_frame:
  "remove_loop c elt n i = c\<lparr>circle := circle (remove_loop c elt n i)\<rparr>"
proof (induction c elt n i rule: remove_loop.induct)
  case (1 c elt n i)
  show ?case
  proof (cases "i < n")
    case True
    let ?c1 = "c\<lparr>circle := fmdrop (hashKey c (eltKey elt i)) (circle c)\<rparr>"
    have step: "remove_loop c elt n i = remove_loop ?c1 elt n (i + 1)"
      by (subst remove_loop.simps) (simp add: True)
    have "remove_loop ?c1 elt n (i + 1) = ?c1\<lparr>circle := circle (remove_loop ?c1 elt n (i + 1))\<rparr>"
      by (rule "1.IH"[OF True])
    also have "\<dots> = c\<lparr>circle := circle (remove_loop ?c1 elt n (i + 1))\<rparr>" by simp
    finally show ?thesis by (simp only: step)
  next
    case False
    then show ?thesis by (simp add: remove_loop.simps)
  qed
qed

lemma remove_loop_lookup_from:
  "fmlookup (circle (remove_loop c elt n i)) h =
     (if h \<in> (\<lambda>j. hashKey c (eltKey elt j)) ` {i..<n} then None else fmlookup (circle c) h)"
proof (induction c elt n i rule: remove_loop.induct)
  case (1 c elt n i)
  show ?case
  proof (cases "i < n")
    case True
    let ?c1 = "c\<lparr>circle := fmdrop (hashKey c (eltKey elt i)) (circle c)\<rparr>"
    have hk: "hashKey ?c1 = hashKey c"
      by (rule hashKey_cong) simp_all
    have split: "{i..<n} = insert i {i + 1..<n}" using True by auto
    have step: "remove_loop c elt n i = remove_loop ?c1 elt n (i + 1)"
      by (subst remove_loop.simps) (simp add: True)
    have "fmlookup (circle (remove_loop c elt n i)) h =
       (if h \<in> (\<lambda>j. hashKey c (eltKey elt j)) ` {i + 1..<n} then None
        else fmlookup (circle ?c1) h)"
      unfolding step using "1.IH"[OF True] by (simp only: hk)
    also have "\<dots> = (if h \<in> (\<lambda>j. hashKey c (eltKey elt j)) ` insert i {i + 1..<n} then None
        else fmlookup (circle c) h)"
      by auto
    finally show ?thesis by (simp only: split)
  next
    case False
    then show ?thesis by (simp add: remove_loop.simps)
  qed
qed

lemma remove_loop_lookup:
  "fmlookup (circle (remove_loop c elt n 0)) h =
     (if h \<in> replica_positions c elt n then None else fmlookup (circle c) h)"
  by (simp add: remove_loop_lookup_from replica_positions_def eltKey_def)

section \<open>What the mutations return\<close>

lemma sort_sorted_list_of_fset: "sort (sorted_list_of_fset S) = sorted_list_of_fset S"
  by (simp add: sorted_list_of_fset.rep_eq sorted_sort_id)

lemma updateSortedHashes_ok:
  "rebuild_ok c \<Longrightarrow>
   updateSortedHashes c = Inr (c\<lparr>sortedHashes := sorted_list_of_fset (fmdom (circle c))\<rparr>)"
  by (simp add: updateSortedHashes_def rebuild_ok_def sort_sorted_list_of_fset)

lemma updateSortedHashes_panic:
  "\<not> rebuild_ok c \<Longrightarrow> updateSortedHashes c = Inl PanicDivideByZero"
  by (simp add: updateSortedHashes_def rebuild_ok_def)

lemma add_ok: "rebuild_ok c \<Longrightarrow> add c elt n = Inr (add_result c elt n)"
proof -
  assume ok: "rebuild_ok c"
  define m where "m = circle (add_loop c elt n 0)"
  have m: "add_loop c elt n 0 = c\<lparr>circle := m\<rparr>"
    unfolding m_def by (rule add_loop_frame)
  show ?thesis
    using ok by (simp add: add_def add_result_def m Let_def updateSortedHashes_def
        rebuild_ok_def sort_sorted_list_of_fset)
qed

lemma add_panic: "\<not> rebuild_ok c \<Longrightarrow> add c elt n = Inl PanicDivideByZero"
proof -
  assume ok: "\<not> rebuild_ok c"
  define m where "m = circle (add_loop c elt n 0)"
  have m: "add_loop c elt n 0 = c\<lparr>circle := m\<rparr>"
    unfolding m_def by (rule add_loop_frame)
  show ?thesis
    using ok by (simp add: add_def m Let_def updateSortedHashes_def rebuild_ok_def)
qed

lemma remove_ok: "rebuild_ok c \<Longrightarrow> remove c elt n = Inr (remove_result c elt n)"
proof -
  assume ok: "rebuild_ok c"
  define m where "m = circle (remove_loop c elt n 0)"
  have m: "remove_loop c elt n 0 = c\<lparr>circle := m\<rparr>"
    unfolding m_def by (rule remove_loop_frame)
  show ?thesis
    using ok by (simp add: remove_def remove_result_def m Let_def updateSortedHashes_def
        rebuild_ok_def sort_sorted_list_of_fset)
qed

lemma remove_panic: "\<not> rebuild_ok c \<Longrightarrow> remove c elt n = Inl PanicDivideByZero"
proof -
  assume ok: "\<not> rebuild_ok c"
  define m where "m = circle (remove_loop c elt n 0)"
  have m: "remove_loop c elt n 0 = c\<lparr>circle := m\<rparr>"
    unfolding m_def by (rule remove_loop_frame)
  show ?thesis
    using ok by (simp add: remove_def m Let_def updateSortedHashes_def rebuild_ok_def)
qed

lemma add_result_fields [simp]:
  "members (add_result c elt n) = fmupd elt True (members c)"
  "membersReplicas (add_result c elt n) = fmupd elt n (membersReplicas c)"
  "count (add_result c elt n) = count c + 1"
  "defaultNumberOfReplicas (add_result c elt n) = defaultNumberOfReplicas c"
  "customHasher (add_result c elt n) = customHasher c"
  "useFnv (add_result c elt n) = useFnv c"
  "sortedHashes (add_result c elt n) = sorted_list_of_fset (fmdom (circle (add_result c elt n)))"
  by (simp_all add: add_result_def)

lemma add_result_lookup:
  "fmlookup (circle (add_result c elt n)) h =
     (if h \<in> replica_positions c elt n then Some elt else fmlookup (circle c) h)"
  by (simp add: add_result_def add_loop_lookup)

lemma remove_result_fields [simp]:
  "members (remove_result c elt n) = fmdrop elt (members c)"
  "membersReplicas (remove_result c elt n) = fmdrop elt (membersReplicas c)"
  "count (remove_result c elt n) = count c - 1"
  "defaultNumberOfReplicas (remove_result c elt n) = defaultNumberOfReplicas c"
  "customHasher (remove_result c elt n) = customHasher c"
  "useFnv (remove_result c elt n) = useFnv c"
  "sortedHashes (remove_result c elt n) = sorted_list_of_fset (fmdom (circle (remove_result c elt n)))"
  by (simp_all add: remove_result_def)

lemma remove_result_lookup:
  "fmlookup (circle (remove_result c elt n)) h =
     (if h \<in> replica_positions c elt n then None else fmlookup (circle c) h)"
  by (simp add: remove_result_def remove_loop_lookup)

lemma rebuild_ok_add_result [simp]: "rebuild_ok (add_result c elt n) = rebuild_ok c"
  by (simp add: rebuild_ok_def)

lemma rebuild_ok_remove_result [simp]: "rebuild_ok (remove_result c elt n) = rebuild_ok c"
  by (simp add: rebuild_ok_def)

lemma hashKey_add_result [simp]: "hashKey (add_result c elt n) = hashKey c"
  by (rule hashKey_cong) simp_all

lemma hashKey_remove_result [simp]: "hashKey (remove_result c elt n) = hashKey c"
  by (rule hashKey_cong) simp_all

lemma replica_positions_add_result [simp]:
  "replica_positions (add_result c elt n) = replica_positions c"
  by (rule replica_positions_cong) simp_all

lemma replica_positions_remove_result [simp]:
  "replica_positions (remove_result c elt n) = replica_positions c"
  by (rule replica_positions_cong) simp_all

lemma add_Inr: "add c elt n = Inr c' \<longleftrightarrow> rebuild_ok c \<and> c' = add_result c elt n"
  by (cases "rebuild_ok c") (auto simp: add_ok add_panic)

lemma add_Inl: "add c elt n = Inl e \<longleftrightarrow> \<not> rebuild_ok c \<and> e = PanicDivideByZero"
  by (cases "rebuild_ok c") (auto simp: add_ok add_panic)

lemma remove_Inr: "remove c elt n = Inr c' \<longleftrightarrow> rebuild_ok c \<and> c' = remove_result c elt n"
  by (cases "rebuild_ok c") (auto simp: remove_ok remove_panic)

lemma remove_Inl: "remove c elt n = Inl e \<longleftrightarrow> \<not> rebuild_ok c \<and> e = PanicDivideByZero"
  by (cases "rebuild_ok c") (auto simp: remove_ok remove_panic)

lemma Add_present: "elt |\<in>| fmdom (members c) \<Longrightarrow> Add c elt rs = Inr c"
  by (simp add: Add_def)

lemma Add_absent:
  "elt |\<notin>| fmdom (members c) \<Longrightarrow>
   Add c elt rs = add c elt (case rs of [] \<Rightarrow> defaultNumberOfReplicas c | r # _ \<Rightarrow> r)"
  by (simp add: Add_def)

lemma Add_Inr_member: "Add c elt rs = Inr c' \<Longrightarrow> elt |\<in>| fmdom (members c')"
  by (cases "elt |\<in>| fmdom (members c)") (auto simp: Add_present Add_absent add_Inr)

lemma Add_returns: "rebuild_ok c \<Longrightarrow> \<exists>c'. Add c elt rs = Inr c'"
  by (cases "elt |\<in>| fmdom (members c)") (auto simp: Add_present Add_absent add_Inr)

lemma Add_Inl: "Add c elt rs = Inl e \<Longrightarrow> e = PanicDivideByZero \<and> \<not> rebuild_ok c"
  by (cases "elt |\<in>| fmdom (members c)") (auto simp: Add_present Add_absent add_Inl)

lemma Remove_absent: "elt |\<notin>| fmdom (members c) \<Longrightarrow> Remove c elt = Inr (c, False)"
  by (simp add: Remove_def)

lemma Remove_Inr_True:
  "Remove c elt = Inr (c', True) \<longleftrightarrow>
     elt |\<in>| fmdom (members c) \<and> rebuild_ok c \<and>
     (\<exists>n. fmlookup (membersReplicas c) elt = Some n \<and> c' = remove_result c elt n)"
  by (auto simp: Remove_def remove_Inr remove_Inl split: option.splits sum.splits)

lemma Remove_Inr_False:
  "Remove c elt = Inr (c', False) \<longleftrightarrow>
     c' = c \<and> (elt |\<notin>| fmdom (members c) \<or> fmlookup (membersReplicas c) elt = None)"
  by (auto simp: Remove_def remove_Inr split: option.splits sum.splits)

lemma Remove_Inl: "Remove c elt = Inl e \<Longrightarrow> e = PanicDivideByZero \<and> \<not> rebuild_ok c"
  by (auto simp: Remove_def remove_Inl split: option.splits sum.splits if_splits)

lemma Remove_returns: "rebuild_ok c \<Longrightarrow> \<exists>c' b. Remove c elt = Inr (c', b)"
  by (auto simp: Remove_def remove_Inr remove_Inl split: option.splits sum.splits)

section \<open>The empty-circle error\<close>

lemma GetTwo_loop_no_empty_error:
  assumes "GetTwo_loop c a start i b = Some r"
  shows "r \<noteq> Inl ErrEmptyCircle"
  by (rule GetTwo_loop.raw_induct[where P = "\<lambda>_ _ _ _ _ r. r \<noteq> Inl ErrEmptyCircle", OF _ assms])
     (auto split: if_splits simp: Let_def)

lemma GetN_loop_no_empty_error:
  assumes "GetN_loop c n start i res = Some r"
  shows "r \<noteq> Inl ErrEmptyCircle"
  by (rule GetN_loop.raw_induct[where P = "\<lambda>_ _ _ _ _ r. r \<noteq> Inl ErrEmptyCircle", OF _ assms])
     (auto split: if_splits simp: Let_def)

lemma len_circle_0: "len_circle c = 0 \<longleftrightarrow> circle c = fmempty"
proof
  assume "len_circle c = 0"
  then have "fmdom (circle c) = {||}" by (simp add: len_circle_def)
  then have "fmrestrict_fset (fmdom (circle c)) (circle c) = fmempty" by simp
  then show "circle c = fmempty" by simp
next
  assume "circle c = fmempty"
  then show "len_circle c = 0" by (simp add: len_circle_def)
qed

lemma lookups_on_empty:
  "len_circle c = 0 \<Longrightarrow>
     Get c name = Inl ErrEmptyCircle \<and>
     GetTwo c name = Some (Inl ErrEmptyCircle) \<and>
     GetN c name n = Some (Inl ErrEmptyCircle)"
  by (simp add: Get_def GetTwo_def GetN_def)

text \<open>
  C3.  On a ring that holds no position (a fresh ring in particular), \<open>Get\<close>, \<open>GetTwo\<close>
  and \<open>GetN\<close> return the empty-circle error, which carries no member; on a ring that
  holds a position none of them returns that error.
\<close>

theorem empty_circle_error:
  "len_circle (New conf) = 0 \<and>
   (len_circle c = 0 \<longrightarrow>
      Get c name = Inl ErrEmptyCircle \<and>
      GetTwo c name = Some (Inl ErrEmptyCircle) \<and>
      GetN c name n = Some (Inl ErrEmptyCircle)) \<and>
   (len_circle c \<noteq> 0 \<longrightarrow>
      Get c name \<noteq> Inl ErrEmptyCircle \<and>
      GetTwo c name \<noteq> Some (Inl ErrEmptyCircle) \<and>
      GetN c name n \<noteq> Some (Inl ErrEmptyCircle))"
proof -
  have f: "len_circle (New conf) = 0"
    by (simp add: len_circle_def New_def)
  have g: "len_circle c \<noteq> 0 \<Longrightarrow> Get c name \<noteq> Inl ErrEmptyCircle"
    by (simp add: Get_def Let_def)
  have t: "len_circle c \<noteq> 0 \<Longrightarrow> GetTwo c name \<noteq> Some (Inl ErrEmptyCircle)"
    by (auto simp: GetTwo_def Let_def split: option.splits sum.splits
        dest: GetTwo_loop_no_empty_error)
  have n: "len_circle c \<noteq> 0 \<Longrightarrow> GetN c name n \<noteq> Some (Inl ErrEmptyCircle)"
    by (auto simp: GetN_def Let_def split: option.splits sum.splits if_splits
        dest: GetN_loop_no_empty_error)
  from f g t n lookups_on_empty[of c name n] show ?thesis by blast
qed

text \<open>
  C6.  \<open>Add\<close> of a name that is already a member returns the ring as it is, whatever
  replica count is passed; so a second \<open>Add\<close> of the same name changes nothing.
\<close>

theorem Add_present_is_noop:
  "(elt |\<in>| fmdom (members c) \<longrightarrow> Add c elt rs = Inr c) \<and>
   (Add c elt rs = Inr c1 \<longrightarrow> Add c1 elt rs' = Inr c1)"
  using Add_present Add_Inr_member by blast

lemma New_fields [simp]:
  "circle (New conf) = fmempty"
  "members (New conf) = fmempty"
  "membersReplicas (New conf) = fmempty"
  "sortedHashes (New conf) = []"
  "count (New conf) = 0"
  "customHasher (New conf) = CustomHasher conf"
  "useFnv (New conf) = UseFnv conf"
  by (simp_all add: New_def)

lemma rebuild_ok_New_byte_sum: "rebuild_ok (New byte_sum_config)"
  by (simp add: rebuild_ok_def New_def byte_sum_config_def mul_int64_def)

lemma rebuild_ok_New_default: "rebuild_ok (New default_config)"
  by (simp add: rebuild_ok_def New_def default_config_def mul_int64_def)

theorem empty_circle_error_witness:
  "len_circle (New default_config) = 0 \<and>
   Get (New default_config) ''k'' = Inl ErrEmptyCircle \<and>
   GetTwo (New default_config) ''k'' = Some (Inl ErrEmptyCircle) \<and>
   GetN (New default_config) ''k'' 3 = Some (Inl ErrEmptyCircle) \<and>
   (case Add (New byte_sum_config) ''x'' [10] of
      Inl e \<Rightarrow> False
    | Inr c \<Rightarrow>
        len_circle c \<noteq> 0 \<and>
        Get c ''k'' \<noteq> Inl ErrEmptyCircle \<and>
        GetTwo c ''k'' \<noteq> Some (Inl ErrEmptyCircle) \<and>
        GetN c ''k'' 3 \<noteq> Some (Inl ErrEmptyCircle))"
proof -
  let ?c = "add_result (New byte_sum_config) ''x'' 10"
  have a: "Add (New byte_sum_config) ''x'' [10] = Inr ?c"
    by (simp add: Add_absent add_ok rebuild_ok_New_byte_sum)
  have l: "len_circle ?c \<noteq> 0"
    by code_simp
  from l a empty_circle_error[of default_config "New default_config" "''k''" 3]
    empty_circle_error[of default_config ?c "''k''" 3]
  show ?thesis by simp
qed

theorem Add_present_is_noop_witness:
  "(case Add (New byte_sum_config) ''x'' [10] of
      Inl e \<Rightarrow> False
    | Inr c \<Rightarrow>
        ''x'' |\<in>| fmdom (members c) \<and>
        Add c ''x'' [10] = Inr c \<and> Add c ''x'' [3] = Inr c \<and> Add c ''x'' [] = Inr c)"
proof -
  let ?c = "add_result (New byte_sum_config) ''x'' 10"
  have a: "Add (New byte_sum_config) ''x'' [10] = Inr ?c"
    by (simp add: Add_absent add_ok rebuild_ok_New_byte_sum)
  have m: "''x'' |\<in>| fmdom (members ?c)" by simp
  from a m Add_present_is_noop[of "''x''" "New byte_sum_config" "[10]" ?c "[10]"]
    Add_present_is_noop[of "''x''" ?c "[3]" ?c "[]"]
    Add_present_is_noop[of "''x''" ?c "[]" ?c "[]"]
  show ?thesis by simp
qed

section \<open>Replica positions\<close>

lemma Add_absent_Inr:
  "elt |\<notin>| fmdom (members c) \<Longrightarrow>
   Add c elt [r] = Inr c' \<longleftrightarrow> rebuild_ok c \<and> c' = add_result c elt r"
  by (simp add: Add_absent add_Inr)

lemma Remove_after_add:
  assumes "Remove (add_result c elt r) elt = Inr (c'', b)"
  shows "b \<and> c'' = remove_result (add_result c elt r) elt r"
proof (cases b)
  case True
  with assms show ?thesis by (auto simp: Remove_Inr_True)
next
  case False
  with assms show ?thesis by (auto simp: Remove_Inr_False)
qed

text \<open>
  C9.  \<open>Add\<close> of a new member \<open>elt\<close> with replica count \<open>r\<close> writes \<open>elt\<close> at exactly the
  keys \<open>hash(decimal(i) ++ elt)\<close>, \<open>0 \<le> i < r\<close>, index before name, and stores \<open>r\<close>;
  \<open>Remove\<close> deletes exactly the keys computed the same way from the stored count, so
  after the \<open>Add\<close> it deletes the very keys the \<open>Add\<close> wrote.  Both calls return
  unless the rebuild panics.
\<close>

theorem replica_keys_added_and_removed:
  "replica_positions c elt r = {hashKey c (Itoa i @ elt) | i. 0 \<le> i \<and> i < r} \<and>
   (elt |\<notin>| fmdom (members c) \<and> Add c elt [r] = Inr c' \<longrightarrow>
      (\<forall>h. fmlookup (circle c') h =
             (if h \<in> replica_positions c elt r then Some elt else fmlookup (circle c) h)) \<and>
      fmlookup (membersReplicas c') elt = Some r \<and>
      (\<forall>c'' b. Remove c' elt = Inr (c'', b) \<longrightarrow>
         b \<and>
         (\<forall>h. fmlookup (circle c'') h =
               (if h \<in> replica_positions c elt r then None else fmlookup (circle c') h)))) \<and>
   (fmlookup (membersReplicas c) elt = Some r \<and> Remove c elt = Inr (c', True) \<longrightarrow>
      (\<forall>h. fmlookup (circle c') h =
             (if h \<in> replica_positions c elt r then None else fmlookup (circle c) h))) \<and>
   (rebuild_ok c \<longrightarrow>
      (\<exists>c'. Add c elt [r] = Inr c') \<and> (\<exists>c' b. Remove c elt = Inr (c', b)))"
proof -
  have s: "replica_positions c elt r = {hashKey c (Itoa i @ elt) | i. 0 \<le> i \<and> i < r}"
    by (auto simp: replica_positions_def)
  have a: "(\<forall>h. fmlookup (circle c') h =
             (if h \<in> replica_positions c elt r then Some elt else fmlookup (circle c) h)) \<and>
      fmlookup (membersReplicas c') elt = Some r \<and>
      (\<forall>c'' b. Remove c' elt = Inr (c'', b) \<longrightarrow>
         b \<and>
         (\<forall>h. fmlookup (circle c'') h =
               (if h \<in> replica_positions c elt r then None else fmlookup (circle c') h)))"
    if "elt |\<notin>| fmdom (members c)" "Add c elt [r] = Inr c'"
  proof -
    from that have c': "c' = add_result c elt r" by (simp add: Add_absent_Inr)
    show ?thesis
      unfolding c' using Remove_after_add[of c elt r]
      by (auto simp: add_result_lookup remove_result_lookup)
  qed
  have d: "\<forall>h. fmlookup (circle c') h =
             (if h \<in> replica_positions c elt r then None else fmlookup (circle c) h)"
    if "fmlookup (membersReplicas c) elt = Some r" "Remove c elt = Inr (c', True)"
    using that by (auto simp: Remove_Inr_True remove_result_lookup)
  have t: "rebuild_ok c \<Longrightarrow>
      (\<exists>c'. Add c elt [r] = Inr c') \<and> (\<exists>c' b. Remove c elt = Inr (c', b))"
    using Add_returns Remove_returns by blast
  from s a d t show ?thesis by blast
qed

section \<open>Members without positions\<close>

lemma add_loop_nonpositive: "n \<le> 0 \<Longrightarrow> add_loop c elt n 0 = c"
  by (subst add_loop.simps) simp

lemma add_result_nonpositive:
  "n \<le> 0 \<Longrightarrow> circle (add_result c elt n) = circle c"
  by (simp add: add_result_def add_loop_nonpositive)

lemma nonpositive_ring_empty: "nonpositive_ring c \<Longrightarrow> len_circle c = 0"
proof (induction rule: nonpositive_ring.induct)
  case (fresh conf)
  show ?case by (simp add: len_circle_def)
next
  case (added c r elt c')
  show ?case
  proof (cases "elt |\<in>| fmdom (members c)")
    case True
    with added show ?thesis by (simp add: Add_present)
  next
    case False
    with added show ?thesis
      by (simp add: Add_absent_Inr len_circle_def add_result_nonpositive)
  qed
qed

text \<open>
  C10.  \<open>Add\<close> of a new name with a replica count \<open>r \<le> 0\<close> records the name as a member
  (it is listed by \<open>Members\<close>, counted, and \<open>r\<close> is stored) and writes no position.  The
  call returns unless the rebuild panics.  A ring all of whose members were added this
  way holds no position, so every lookup on it returns the empty-circle error.
\<close>

theorem Add_nonpositive_replicas:
  "(r \<le> 0 \<and> elt |\<notin>| fmdom (members c) \<and> Add c elt [r] = Inr c' \<longrightarrow>
      fmdom (members c') = finsert elt (fmdom (members c)) \<and>
      elt \<in> set (Members c') \<and>
      MemberReplicas c' = fmupd elt r (membersReplicas c) \<and>
      count c' = count c + 1 \<and>
      circle c' = circle c) \<and>
   (rebuild_ok c \<longrightarrow> (\<exists>c'. Add c elt [r] = Inr c')) \<and>
   (nonpositive_ring c \<longrightarrow>
      Get c name = Inl ErrEmptyCircle \<and>
      GetTwo c name = Some (Inl ErrEmptyCircle) \<and>
      GetN c name n = Some (Inl ErrEmptyCircle))"
proof -
  have a: "fmdom (members c') = finsert elt (fmdom (members c)) \<and>
      elt \<in> set (Members c') \<and>
      MemberReplicas c' = fmupd elt r (membersReplicas c) \<and>
      count c' = count c + 1 \<and>
      circle c' = circle c"
    if "r \<le> 0" "elt |\<notin>| fmdom (members c)" "Add c elt [r] = Inr c'"
  proof -
    from that have c': "c' = add_result c elt r" by (simp add: Add_absent_Inr)
    show ?thesis
      unfolding c' using that(1)
      by (simp add: Members_def MemberReplicas_def add_result_nonpositive)
  qed
  have b: "nonpositive_ring c \<Longrightarrow>
      Get c name = Inl ErrEmptyCircle \<and>
      GetTwo c name = Some (Inl ErrEmptyCircle) \<and>
      GetN c name n = Some (Inl ErrEmptyCircle)"
    by (rule lookups_on_empty) (rule nonpositive_ring_empty)
  from a b Add_returns[of c elt "[r]"] show ?thesis by blast
qed

lemma replica_positions_byte_sum_A:
  "replica_positions (New byte_sum_config) ''A'' 2 = {56, 57}"
  by code_simp

theorem replica_keys_added_and_removed_witness:
  "(case Add (New byte_sum_config) ''A'' [2] of
      Inl e \<Rightarrow> False
    | Inr c \<Rightarrow>
        fmlookup (circle c) 56 = Some ''A'' \<and>
        fmlookup (circle c) 57 = Some ''A'' \<and>
        fmlookup (circle c) 58 = None \<and>
        fmlookup (membersReplicas c) ''A'' = Some 2 \<and>
        (case Remove c ''A'' of
           Inl e \<Rightarrow> False
         | Inr (c2, b) \<Rightarrow>
             b \<and> fmlookup (circle c2) 56 = None \<and> fmlookup (circle c2) 57 = None))"
proof -
  let ?c0 = "New byte_sum_config"
  let ?c1 = "add_result ?c0 ''A'' 2"
  let ?c2 = "remove_result ?c1 ''A'' 2"
  have a: "Add ?c0 ''A'' [2] = Inr ?c1"
    by (simp add: Add_absent add_ok rebuild_ok_New_byte_sum)
  have r: "Remove ?c1 ''A'' = Inr (?c2, True)"
    by (simp add: Remove_Inr_True rebuild_ok_New_byte_sum)
  have n: "''A'' |\<notin>| fmdom (members ?c0)" by simp
  note T = replica_keys_added_and_removed[of ?c0 "''A''" 2 ?c1,
      THEN conjunct2, THEN conjunct1, rule_format, OF conjI[OF n a]]
  from T have l1: "\<And>h. fmlookup (circle ?c1) h =
             (if h \<in> replica_positions ?c0 ''A'' 2 then Some ''A''
              else fmlookup (circle ?c0) h)"
    by blast
  from T have l2: "fmlookup (membersReplicas ?c1) ''A'' = Some 2"
    by blast
  from T r have l3: "\<And>h. fmlookup (circle ?c2) h =
             (if h \<in> replica_positions ?c0 ''A'' 2 then None else fmlookup (circle ?c1) h)"
    by blast
  show ?thesis
    by (simp add: a r l1 l2 l3 replica_positions_byte_sum_A)
qed

theorem Add_nonpositive_replicas_witness:
  "(case Add (New byte_sum_config) ''b'' [0] of
      Inl e \<Rightarrow> False
    | Inr c \<Rightarrow>
        ''b'' \<in> set (Members c) \<and> count c = 1 \<and> circle c = fmempty \<and>
        MemberReplicas c = fmupd ''b'' 0 fmempty \<and>
        Get c ''k'' = Inl ErrEmptyCircle \<and>
        GetTwo c ''k'' = Some (Inl ErrEmptyCircle) \<and>
        GetN c ''k'' 2 = Some (Inl ErrEmptyCircle))"
proof -
  let ?c0 = "New byte_sum_config"
  let ?c1 = "add_result ?c0 ''b'' 0"
  have a: "Add ?c0 ''b'' [0] = Inr ?c1"
    by (simp add: Add_absent add_ok rebuild_ok_New_byte_sum)
  have n: "''b'' |\<notin>| fmdom (members ?c0)" by simp
  have p: "nonpositive_ring ?c1"
    by (rule nonpositive_ring.added[OF nonpositive_ring.fresh _ a]) simp
  from Add_nonpositive_replicas[of 0 "''b''" ?c0 ?c1 "''k''" 2] a n
    Add_nonpositive_replicas[of 0 "''b''" ?c1 ?c1 "''k''" 2] p
  show ?thesis by simp
qed

section \<open>The sorted index\<close>

lemma index_matches_iff:
  "index_matches c \<longleftrightarrow> sortedHashes c = sorted_list_of_fset (fmdom (circle c))"
proof
  assume m: "index_matches c"
  then have s: "set (sortedHashes c) = fset (fmdom (circle c))"
    and l: "length (sortedHashes c) = card (fset (fmdom (circle c)))"
    and o: "sorted (sortedHashes c)"
    by (simp_all add: index_matches_def fmdom'_alt_def fcard.rep_eq)
  from s l have "distinct (sortedHashes c)"
    by (simp add: card_distinct)
  with o have "sorted_list_of_set (set (sortedHashes c)) = sortedHashes c"
    by (rule sorted_list_of_set.idem_if_sorted_distinct)
  with s show "sortedHashes c = sorted_list_of_fset (fmdom (circle c))"
    by (simp add: sorted_list_of_fset.rep_eq)
next
  assume "sortedHashes c = sorted_list_of_fset (fmdom (circle c))"
  then show "index_matches c"
    by (simp add: index_matches_def fmdom'_alt_def fcard.rep_eq sorted_list_of_fset.rep_eq)
qed

lemma index_matches_New: "index_matches (New conf)"
  by (simp add: index_matches_def fcard_fempty)

lemma index_matches_add_result: "index_matches (add_result c elt n)"
  by (simp add: index_matches_iff)

lemma index_matches_remove_result: "index_matches (remove_result c elt n)"
  by (simp add: index_matches_iff)

lemma index_matches_Add:
  "index_matches c \<Longrightarrow> Add c elt rs = Inr c' \<Longrightarrow> index_matches c'"
  by (cases "elt |\<in>| fmdom (members c)")
     (auto simp: Add_present Add_absent add_Inr index_matches_add_result)

lemma index_matches_Remove:
  "index_matches c \<Longrightarrow> Remove c elt = Inr (c', b) \<Longrightarrow> index_matches c'"
  by (cases b) (auto simp: Remove_Inr_True Remove_Inr_False index_matches_remove_result)

lemma index_matches_Set_remove_loop:
  "index_matches c \<Longrightarrow> Set_remove_loop ks elts c = Inr c' \<Longrightarrow> index_matches c'"
proof (induction ks arbitrary: c)
  case Nil
  then show ?case by simp
next
  case (Cons k ks)
  show ?case
  proof (cases "k \<notin> set elts \<and> fmlookup (membersReplicas c) k \<noteq> None")
    case True
    then obtain v where v: "fmlookup (membersReplicas c) k = Some v" by auto
    with True Cons.prems(2) have ok: "rebuild_ok c"
      and r: "Set_remove_loop ks elts (remove_result c k v) = Inr c'"
      by (auto simp: remove_Inr remove_Inl split: sum.splits)
    from Cons.IH[OF index_matches_remove_result r] show ?thesis .
  next
    case False
    with Cons.prems(2) have "Set_remove_loop ks elts c = Inr c'"
      by (auto split: option.splits)
    from Cons.IH[OF Cons.prems(1) this] show ?thesis .
  qed
qed

lemma index_matches_Set_add_loop:
  "index_matches c \<Longrightarrow> Set_add_loop vs c = Inr c' \<Longrightarrow> index_matches c'"
proof (induction vs arbitrary: c)
  case Nil
  then show ?case by simp
next
  case (Cons v vs)
  show ?case
  proof (cases "v |\<in>| fmdom (members c)")
    case True
    with Cons.prems(2) have "Set_add_loop vs c = Inr c'" by simp
    from Cons.IH[OF Cons.prems(1) this] show ?thesis .
  next
    case False
    with Cons.prems(2)
    have "Set_add_loop vs (add_result c v (defaultNumberOfReplicas c)) = Inr c'"
      by (auto simp: add_Inr add_Inl split: sum.splits)
    from Cons.IH[OF index_matches_add_result this] show ?thesis .
  qed
qed

lemma index_matches_SetWithReplicas_add_loop:
  "index_matches c \<Longrightarrow> SetWithReplicas_add_loop vs c = Inr c' \<Longrightarrow> index_matches c'"
proof (induction vs arbitrary: c)
  case Nil
  then show ?case by simp
next
  case (Cons v vs)
  show ?case
  proof (cases "Elt v |\<in>| fmdom (members c)")
    case True
    with Cons.prems(2) have "SetWithReplicas_add_loop vs c = Inr c'" by simp
    from Cons.IH[OF Cons.prems(1) this] show ?thesis .
  next
    case False
    with Cons.prems(2) obtain n
      where "SetWithReplicas_add_loop vs (add_result c (Elt v) n) = Inr c'"
      by (auto simp: add_Inr add_Inl Let_def split: sum.splits if_splits)
    from Cons.IH[OF index_matches_add_result this] show ?thesis .
  qed
qed

lemma index_matches_Set_from:
  "index_matches c \<Longrightarrow> Set_from ks c elts = Inr c' \<Longrightarrow> index_matches c'"
  by (auto simp: Set_from_def split: sum.splits
      dest: index_matches_Set_remove_loop index_matches_Set_add_loop)

lemma index_matches_SetWithReplicas_from:
  "index_matches c \<Longrightarrow> SetWithReplicas_from ks c elts = Inr c' \<Longrightarrow> index_matches c'"
  by (auto simp: SetWithReplicas_from_def split: sum.splits
      dest: index_matches_Set_remove_loop index_matches_SetWithReplicas_add_loop)

section \<open>The mutations return unless the rebuild panics\<close>

lemma Set_remove_loop_returns:
  "rebuild_ok c \<Longrightarrow> \<exists>c'. Set_remove_loop ks elts c = Inr c' \<and> rebuild_ok c'"
proof (induction ks arbitrary: c)
  case Nil
  then show ?case by simp
next
  case (Cons k ks)
  show ?case
  proof (cases "k \<notin> set elts \<and> fmlookup (membersReplicas c) k \<noteq> None")
    case True
    then obtain v where v: "fmlookup (membersReplicas c) k = Some v" by auto
    have "rebuild_ok (remove_result c k v)" using Cons.prems by simp
    from Cons.IH[OF this] True v Cons.prems show ?thesis
      by (auto simp: remove_ok)
  next
    case False
    with Cons.IH[OF Cons.prems] show ?thesis
      by (auto split: option.splits)
  qed
qed

lemma Set_add_loop_returns:
  "rebuild_ok c \<Longrightarrow> \<exists>c'. Set_add_loop vs c = Inr c' \<and> rebuild_ok c'"
proof (induction vs arbitrary: c)
  case Nil
  then show ?case by simp
next
  case (Cons v vs)
  show ?case
  proof (cases "v |\<in>| fmdom (members c)")
    case True
    with Cons.IH[OF Cons.prems] show ?thesis by simp
  next
    case False
    have "rebuild_ok (add_result c v (defaultNumberOfReplicas c))" using Cons.prems by simp
    from Cons.IH[OF this] False Cons.prems show ?thesis
      by (auto simp: add_ok)
  qed
qed

lemma SetWithReplicas_add_loop_returns:
  "rebuild_ok c \<Longrightarrow> \<exists>c'. SetWithReplicas_add_loop vs c = Inr c' \<and> rebuild_ok c'"
proof (induction vs arbitrary: c)
  case Nil
  then show ?case by simp
next
  case (Cons v vs)
  show ?case
  proof (cases "Elt v |\<in>| fmdom (members c)")
    case True
    with Cons.IH[OF Cons.prems] show ?thesis by simp
  next
    case False
    define n where "n = (if NumberOfReplicas v = 0 then defaultNumberOfReplicas c
                  else NumberOfReplicas v)"
    have "rebuild_ok (add_result c (Elt v) n)" using Cons.prems by simp
    from Cons.IH[OF this] False Cons.prems show ?thesis
      by (auto simp: add_ok Let_def n_def)
  qed
qed

lemma Set_from_returns: "rebuild_ok c \<Longrightarrow> \<exists>c'. Set_from ks c elts = Inr c'"
proof -
  assume "rebuild_ok c"
  from Set_remove_loop_returns[OF this, of ks elts] obtain c1
    where c1: "Set_remove_loop ks elts c = Inr c1" "rebuild_ok c1" by blast
  from Set_add_loop_returns[OF c1(2), of elts] c1(1) show ?thesis
    by (auto simp: Set_from_def)
qed

lemma SetWithReplicas_from_returns:
  "rebuild_ok c \<Longrightarrow> \<exists>c'. SetWithReplicas_from ks c elts = Inr c'"
proof -
  assume "rebuild_ok c"
  from Set_remove_loop_returns[OF this, of ks "map Elt elts"] obtain c1
    where c1: "Set_remove_loop ks (map Elt elts) c = Inr c1" "rebuild_ok c1" by blast
  from SetWithReplicas_add_loop_returns[OF c1(2), of elts] c1(1) show ?thesis
    by (auto simp: SetWithReplicas_from_def)
qed

text \<open>
  C8.  The sorted index of a fresh ring matches its (empty) position map, and every
  \<open>Add\<close>, \<open>Remove\<close>, \<open>Set\<close> and \<open>SetWithReplicas\<close> that returns leaves a ring whose sorted
  index holds exactly the keys of the position map, once each, in ascending order.
  The storage test of the rebuild has no influence on this; the calls return whenever
  its divisor is not zero.
\<close>

theorem sorted_index_invariant:
  "index_matches (New conf) \<and>
   (index_matches c \<longrightarrow>
      (\<forall>c'. Add c elt rs = Inr c' \<longrightarrow> index_matches c') \<and>
      (\<forall>c' b. Remove c elt = Inr (c', b) \<longrightarrow> index_matches c') \<and>
      (\<forall>c'. Set c elts = Inr c' \<longrightarrow> index_matches c') \<and>
      (\<forall>c'. SetWithReplicas c selts = Inr c' \<longrightarrow> index_matches c')) \<and>
   (rebuild_ok c \<longrightarrow>
      (\<exists>c'. Add c elt rs = Inr c') \<and>
      (\<exists>c' b. Remove c elt = Inr (c', b)) \<and>
      (\<exists>c'. Set c elts = Inr c') \<and>
      (\<exists>c'. SetWithReplicas c selts = Inr c'))"
proof -
  have p: "index_matches c \<Longrightarrow>
      (\<forall>c'. Add c elt rs = Inr c' \<longrightarrow> index_matches c') \<and>
      (\<forall>c' b. Remove c elt = Inr (c', b) \<longrightarrow> index_matches c') \<and>
      (\<forall>c'. Set c elts = Inr c' \<longrightarrow> index_matches c') \<and>
      (\<forall>c'. SetWithReplicas c selts = Inr c' \<longrightarrow> index_matches c')"
    unfolding Set_def SetWithReplicas_def
    using index_matches_Add index_matches_Remove index_matches_Set_from
      index_matches_SetWithReplicas_from
    by blast
  have t: "rebuild_ok c \<Longrightarrow>
      (\<exists>c'. Add c elt rs = Inr c') \<and>
      (\<exists>c' b. Remove c elt = Inr (c', b)) \<and>
      (\<exists>c'. Set c elts = Inr c') \<and>
      (\<exists>c'. SetWithReplicas c selts = Inr c')"
    unfolding Set_def SetWithReplicas_def
    using Add_returns Remove_returns Set_from_returns SetWithReplicas_from_returns
    by blast
  from p t index_matches_New show ?thesis by blast
qed

theorem sorted_index_invariant_witness:
  "index_matches (New byte_sum_config) \<and>
   (case Add (New byte_sum_config) ''A'' [2] of
      Inl e \<Rightarrow> False
    | Inr c \<Rightarrow>
        index_matches c \<and> sortedHashes c = [56, 57] \<and>
        (case Remove c ''A'' of
           Inl e \<Rightarrow> False
         | Inr (c', b) \<Rightarrow> index_matches c' \<and> sortedHashes c' = []) \<and>
        (case Set c [''B'', ''C''] of
           Inl e \<Rightarrow> False
         | Inr c' \<Rightarrow> index_matches c' \<and> sortedHashes c' = [57]) \<and>
        (case SetWithReplicas c
                [\<lparr>Elt = ''A'', NumberOfReplicas = 5\<rparr>, \<lparr>Elt = ''D'', NumberOfReplicas = 3\<rparr>] of
           Inl e \<Rightarrow> False
         | Inr c' \<Rightarrow> index_matches c' \<and> sortedHashes c' = [56, 57, 58, 59]))"
proof -
  let ?c0 = "New byte_sum_config"
  let ?c1 = "add_result ?c0 ''A'' 2"
  let ?sw = "[\<lparr>Elt = ''A'', NumberOfReplicas = 5\<rparr>, \<lparr>Elt = ''D'', NumberOfReplicas = 3\<rparr>]"
  note T0 = sorted_index_invariant[of byte_sum_config ?c0 "''A''" "[2]" "[]" "[]"]
  note T1 = sorted_index_invariant[of byte_sum_config ?c1 "''A''" "[]" "[''B'', ''C'']" ?sw]
  have ok: "rebuild_ok ?c1" by (simp add: rebuild_ok_New_byte_sum)
  have a: "Add ?c0 ''A'' [2] = Inr ?c1"
    by (simp add: Add_absent add_ok rebuild_ok_New_byte_sum)
  from T0 a have i1: "index_matches ?c1" by blast
  from T1 ok obtain c2 b c3 c4
    where r: "Remove ?c1 ''A'' = Inr (c2, b)"
      and s: "Set ?c1 [''B'', ''C''] = Inr c3"
      and w: "SetWithReplicas ?c1 ?sw = Inr c4"
    by blast
  from T1 i1 r s w have i2: "index_matches c2" "index_matches c3" "index_matches c4"
    by blast+
  have v1: "sortedHashes ?c1 = [56, 57]" by code_simp
  have "case Remove ?c1 ''A'' of Inl e \<Rightarrow> False | Inr (c', b) \<Rightarrow> sortedHashes c' = []"
    by code_simp
  with r have v2: "sortedHashes c2 = []" by simp
  have "case Set ?c1 [''B'', ''C''] of Inl e \<Rightarrow> False | Inr c' \<Rightarrow> sortedHashes c' = [57]"
    by code_simp
  with s have v3: "sortedHashes c3 = [57]" by simp
  have "case SetWithReplicas ?c1 ?sw of
          Inl e \<Rightarrow> False | Inr c' \<Rightarrow> sortedHashes c' = [56, 57, 58, 59]"
    by code_simp
  with w have v4: "sortedHashes c4 = [56, 57, 58, 59]" by simp
  from T0 have "index_matches ?c0" by blast
  with i1 i2 v1 v2 v3 v4 show ?thesis
    by (simp add: a r s w)
qed

section \<open>The binary search\<close>

lemma Search_loop_bounds:
  "(\<forall>a b. a \<le> b \<and> b < n \<and> f a \<longrightarrow> f b) \<Longrightarrow>
   i \<le> j \<Longrightarrow> j \<le> n \<Longrightarrow> (\<forall>k<i. \<not> f k) \<Longrightarrow> (\<forall>k. j \<le> k \<and> k < n \<longrightarrow> f k) \<Longrightarrow>
   Search_loop f i j \<le> n \<and>
   (\<forall>k<Search_loop f i j. \<not> f k) \<and>
   (\<forall>k. Search_loop f i j \<le> k \<and> k < n \<longrightarrow> f k)"
proof (induction f i j rule: Search_loop.induct)
  case (1 f i j)
  note mono = "1.prems"(1)
  show ?case
  proof (cases "i < j")
    case False
    have stop: "Search_loop f i j = i"
      by (subst Search_loop.simps) (simp add: False)
    from False "1.prems"(2) have "i = j" by simp
    with "1.prems"(3-5) show ?thesis
      unfolding stop by simp
  next
    case True
    define h where "h = (i + j) div 2"
    have h: "i \<le> h" "h < j" using True by (simp_all add: h_def)
    show ?thesis
    proof (cases "f h")
      case fh: True
      have step: "Search_loop f i j = Search_loop f i h"
        by (subst Search_loop.simps) (simp add: True fh h_def[symmetric] Let_def)
      have upper: "\<forall>k. h \<le> k \<and> k < n \<longrightarrow> f k"
        using mono fh by blast
      have nn: "\<not> \<not> f h" using fh by simp
      have "h \<le> n" using h "1.prems"(3) by simp
      from "1.IH"(2)[OF True h_def nn mono h(1) this "1.prems"(4) upper]
      show ?thesis unfolding step .
    next
      case nfh: False
      have step: "Search_loop f i j = Search_loop f (h + 1) j"
        by (subst Search_loop.simps) (simp add: True nfh h_def[symmetric] Let_def)
      have hn: "h < n" using h "1.prems"(3) by simp
      have lower: "\<forall>k<h + 1. \<not> f k"
      proof (intro allI impI)
        fix k assume "k < h + 1"
        then have "k \<le> h" by simp
        with mono hn nfh show "\<not> f k" by blast
      qed
      have "h + 1 \<le> j" using h by simp
      from "1.IH"(1)[OF True h_def nfh mono this "1.prems"(3) lower "1.prems"(5)]
      show ?thesis unfolding step .
    qed
  qed
qed

lemma Search_least:
  assumes mono: "\<forall>a b. a \<le> b \<and> b < n \<and> f a \<longrightarrow> f b"
  shows "Search n f \<le> n \<and> (\<forall>k<Search n f. \<not> f k) \<and> (\<forall>k. Search n f \<le> k \<and> k < n \<longrightarrow> f k)"
proof -
  have "Search_loop f 0 n \<le> n \<and>
         (\<forall>k<Search_loop f 0 n. \<not> f k) \<and>
         (\<forall>k. Search_loop f 0 n \<le> k \<and> k < n \<longrightarrow> f k)"
    by (rule Search_loop_bounds[of n f 0 n, OF mono]) auto
  then show ?thesis unfolding Search_def .
qed

lemma sorted_index_mono:
  "sorted xs \<Longrightarrow> a \<le> b \<Longrightarrow> b < length xs \<Longrightarrow> key < xs ! a \<Longrightarrow> key < (xs ! b :: 'a :: linorder)"
proof -
  assume "sorted xs" "a \<le> b" "b < length xs" "key < xs ! a"
  from sorted_nth_mono[OF this(1-3)] this(4) show "key < xs ! b"
    by (rule less_le_trans[rotated])
qed

lemma search_successor:
  fixes xs :: "uint32 list" and key :: uint32
  assumes s: "sorted xs" and ne: "xs \<noteq> []"
  defines "r \<equiv> Search (length xs) (\<lambda>x. xs ! x > key)"
  shows "xs ! (if r \<ge> length xs then 0 else r) = ring_successor (set xs) key"
proof -
  have mono: "\<forall>a b. a \<le> b \<and> b < length xs \<and> key < xs ! a \<longrightarrow> key < xs ! b"
    using sorted_index_mono[OF s] by blast
  from Search_least[of "length xs" "\<lambda>x. xs ! x > key", OF mono]
  have r: "r \<le> length xs" "\<forall>k<r. \<not> key < xs ! k" "\<forall>k. r \<le> k \<and> k < length xs \<longrightarrow> key < xs ! k"
    unfolding r_def by blast+
  show ?thesis
  proof (cases "r < length xs")
    case True
    have in_set: "xs ! r \<in> {p \<in> set xs. key < p}"
      using True r(3) by simp
    have least: "xs ! r \<le> p" if "p \<in> {p \<in> set xs. key < p}" for p
    proof -
      from that obtain k where k: "k < length xs" "xs ! k = p" "key < xs ! k"
        by (auto simp: in_set_conv_nth)
      with r(2) have "r \<le> k" by (cases "r \<le> k") auto
      from sorted_nth_mono[OF s this k(1)] k(2) show ?thesis by simp
    qed
    have "Min {p \<in> set xs. key < p} = xs ! r"
      by (rule Min_eqI) (use in_set least in auto)
    moreover have "\<exists>p \<in> set xs. key < p" using in_set by blast
    ultimately show ?thesis using True by (simp add: ring_successor_def)
  next
    case False
    with r have all: "\<forall>k<length xs. \<not> key < xs ! k" by simp
    then have none: "\<not> (\<exists>p \<in> set xs. key < p)"
      by (auto simp: in_set_conv_nth)
    have "Min (set xs) = xs ! 0"
    proof (rule Min_eqI)
      show "finite (set xs)" by simp
      show "xs ! 0 \<in> set xs" using ne by simp
      fix y assume "y \<in> set xs"
      then obtain k where "k < length xs" "xs ! k = y" by (auto simp: in_set_conv_nth)
      with sorted_nth_mono[OF s, of 0 k] show "xs ! 0 \<le> y" by simp
    qed
    with none False show ?thesis by (simp add: ring_successor_def)
  qed
qed

lemma search_in_range: "sortedHashes c \<noteq> [] \<Longrightarrow> search c key < length (sortedHashes c)"
  by (simp add: search_def Let_def)

lemma index_matches_nonempty:
  "index_matches c \<Longrightarrow> len_circle c \<noteq> 0 \<Longrightarrow> sortedHashes c \<noteq> []"
  by (auto simp: index_matches_def len_circle_def)

lemma ring_successor_in:
  assumes "finite P" "P \<noteq> {}"
  shows "ring_successor P h \<in> P"
proof (cases "\<exists>p \<in> P. h < p")
  case True
  then have "{p \<in> P. h < p} \<noteq> {}" by blast
  moreover have "finite {p \<in> P. h < p}" using assms(1) by simp
  ultimately have "Min {p \<in> P. h < p} \<in> {p \<in> P. h < p}" by (rule Min_in[rotated])
  with True show ?thesis by (simp add: ring_successor_def)
next
  case False
  with Min_in[OF assms] show ?thesis by (simp add: ring_successor_def)
qed

lemma Get_served_by_successor:
  assumes m: "index_matches c" and ne: "len_circle c \<noteq> 0"
  shows "Get c name = Inr (circle_at c (ring_successor (fmdom' (circle c)) (hashKey c name)))"
proof -
  from m have s: "sorted (sortedHashes c)" and d: "set (sortedHashes c) = fmdom' (circle c)"
    by (simp_all add: index_matches_def)
  from index_matches_nonempty[OF m ne] have xs: "sortedHashes c \<noteq> []" .
  have "sortedHashes c ! search c (hashKey c name)
        = ring_successor (set (sortedHashes c)) (hashKey c name)"
    using search_successor[OF s xs, of "hashKey c name"] by (simp add: search_def Let_def)
  with ne search_in_range[OF xs, of "hashKey c name"] show ?thesis
    by (simp add: Get_def Let_def d)
qed

text \<open>
  C2.  On a ring whose sorted index matches its position map (every ring built by the
  operations, by the invariant above) and which holds a position, \<open>Get\<close> returns without
  error the member stored at the least position strictly greater than the hash of the
  key, or at the least position of all when no position is greater.
\<close>

theorem Get_ring_successor:
  assumes "index_matches c" and "len_circle c \<noteq> 0"
  shows "\<exists>m. fmlookup (circle c) (ring_successor (fmdom' (circle c)) (hashKey c name)) = Some m \<and>
             Get c name = Inr m"
proof -
  from assms(2) have "fmdom' (circle c) \<noteq> {}"
    by (auto simp: len_circle_def fmdom'_alt_def)
  from ring_successor_in[OF _ this, of "hashKey c name"]
  obtain m where "fmlookup (circle c) (ring_successor (fmdom' (circle c)) (hashKey c name)) = Some m"
    by (auto simp: fmlookup_dom'_iff)
  with Get_served_by_successor[OF assms, of name] show ?thesis
    by (simp add: circle_at_def)
qed

lemma Add_all_byte_sum_AD:
  "Add_all (New byte_sum_config) [(''A'', [2]), (''D'', [3])] =
     Inr (add_result (add_result (New byte_sum_config) ''A'' 2) ''D'' 3)"
  by (simp add: Add_absent add_ok rebuild_ok_New_byte_sum)

theorem Get_ring_successor_witness:
  "(case Add_all (New byte_sum_config) [(''A'', [2]), (''D'', [3])] of
      Inl e \<Rightarrow> False
    | Inr c \<Rightarrow>
        index_matches c \<and> len_circle c \<noteq> 0 \<and> sortedHashes c = [56, 57, 58, 59] \<and>
        hashKey c ''p'' = 56 \<and> Get c ''p'' = Inr ''A'' \<and>
        fmlookup (circle c) (ring_successor (fmdom' (circle c)) (hashKey c ''p'')) = Some ''A'' \<and>
        hashKey c ''t'' = 58 \<and> Get c ''t'' = Inr ''D'' \<and>
        fmlookup (circle c) (ring_successor (fmdom' (circle c)) (hashKey c ''t'')) = Some ''D'' \<and>
        hashKey c ''z'' = 61 \<and> Get c ''z'' = Inr ''A'' \<and>
        fmlookup (circle c) (ring_successor (fmdom' (circle c)) (hashKey c ''z'')) = Some ''A'')"
proof -
  let ?c = "add_result (add_result (New byte_sum_config) ''A'' 2) ''D'' 3"
  have i: "index_matches ?c" by (rule index_matches_add_result)
  have l: "len_circle ?c \<noteq> 0" by code_simp
  have s: "sortedHashes ?c = [56, 57, 58, 59]" by code_simp
  have h: "hashKey ?c ''p'' = 56" "hashKey ?c ''t'' = 58" "hashKey ?c ''z'' = 61"
    by code_simp+
  have g: "Get ?c ''p'' = Inr ''A''" "Get ?c ''t'' = Inr ''D''" "Get ?c ''z'' = Inr ''A''"
    by code_simp+
  from Get_ring_successor[OF i l, of "''p''"] Get_ring_successor[OF i l, of "''t''"]
    Get_ring_successor[OF i l, of "''z''"] g
  have "fmlookup (circle ?c) (ring_successor (fmdom' (circle ?c)) (hashKey ?c ''p'')) = Some ''A''"
    "fmlookup (circle ?c) (ring_successor (fmdom' (circle ?c)) (hashKey ?c ''t'')) = Some ''D''"
    "fmlookup (circle ?c) (ring_successor (fmdom' (circle ?c)) (hashKey ?c ''z'')) = Some ''A''"
    by auto
  with i l s h g show ?thesis
    by (simp only: Add_all_byte_sum_AD sum.case simp_thms)
qed

section \<open>Removing a member\<close>

lemma ring_successor_subset:
  assumes fin: "finite P" and sub: "Q \<subseteq> P" and inQ: "ring_successor P h \<in> Q"
  shows "ring_successor Q h = ring_successor P h"
proof (cases "\<exists>p \<in> P. h < p")
  case True
  let ?p = "Min {p \<in> P. h < p}"
  have p: "ring_successor P h = ?p" using True by (simp add: ring_successor_def)
  have finP: "finite {p \<in> P. h < p}" using fin by simp
  have "{p \<in> P. h < p} \<noteq> {}" using True by blast
  with finP have "?p \<in> {p \<in> P. h < p}" by (rule Min_in)
  then have hp: "h < ?p" by simp
  with inQ p have ex: "\<exists>q \<in> Q. h < q" by auto
  have "Min {q \<in> Q. h < q} = ?p"
  proof (rule Min_eqI)
    show "finite {q \<in> Q. h < q}" using fin sub by (simp add: finite_subset)
    show "?p \<in> {q \<in> Q. h < q}" using inQ p hp by simp
    fix y assume "y \<in> {q \<in> Q. h < q}"
    then have "y \<in> {p \<in> P. h < p}" using sub by blast
    with finP show "?p \<le> y" by (rule Min_le)
  qed
  with ex p show ?thesis by (simp add: ring_successor_def)
next
  case False
  then have p: "ring_successor P h = Min P" by (simp add: ring_successor_def)
  from False sub have nex: "\<not> (\<exists>q \<in> Q. h < q)" by blast
  have "Min Q = Min P"
  proof (rule Min_eqI)
    show "finite Q" using fin sub by (rule finite_subset[rotated])
    show "Min P \<in> Q" using inQ p by simp
    fix y assume "y \<in> Q"
    then have "y \<in> P" using sub by blast
    with fin show "Min P \<le> y" by (rule Min_le)
  qed
  with nex p show ?thesis by (simp add: ring_successor_def)
qed

lemma Get_Inr_served:
  assumes m: "index_matches c" and g: "Get c k = Inr elt"
  shows "len_circle c \<noteq> 0 \<and>
         ring_successor (fmdom' (circle c)) (hashKey c k) \<in> fmdom' (circle c) \<and>
         fmlookup (circle c) (ring_successor (fmdom' (circle c)) (hashKey c k)) = Some elt"
proof -
  from g have ne: "len_circle c \<noteq> 0"
    by (auto simp: Get_def split: if_splits)
  then have "fmdom' (circle c) \<noteq> {}"
    by (auto simp: len_circle_def fmdom'_alt_def)
  from ring_successor_in[OF _ this, of "hashKey c k"]
  have i: "ring_successor (fmdom' (circle c)) (hashKey c k) \<in> fmdom' (circle c)" by simp
  then obtain e where e: "fmlookup (circle c)
      (ring_successor (fmdom' (circle c)) (hashKey c k)) = Some e"
    by (auto simp: fmlookup_dom'_iff)
  with Get_served_by_successor[OF m ne, of k] g have "e = elt"
    by (simp add: circle_at_def)
  with ne i e show ?thesis by simp
qed

text \<open>
  C1, amended.  Let the sorted index of the ring match its position map, and let \<open>x\<close> be
  a member with stored replica count \<open>n\<close> none of whose replica hashes is a position
  owned by another member (so for members \<open>A\<close>, \<open>B\<close>, \<open>C\<close>: no replica hash of \<open>C\<close>
  is a position of \<open>A\<close> or \<open>B\<close>, as when \<open>C\<close> was added last or no hashes collide).
  Then a key that \<open>Get\<close> mapped to a member other than \<open>x\<close> before \<open>Remove x\<close> is mapped
  to the same member after it; and \<open>Remove x\<close> returns unless the rebuild panics.
\<close>

theorem Remove_keeps_other_members_keys:
  assumes m: "index_matches c"
    and r: "fmlookup (membersReplicas c) x = Some n"
    and own: "\<forall>h \<in> replica_positions c x n. \<forall>elt. fmlookup (circle c) h = Some elt \<longrightarrow> elt = x"
    and g: "Get c k = Inr elt" and ne: "elt \<noteq> x"
  shows "(x |\<in>| fmdom (members c) \<and> rebuild_ok c \<longrightarrow> (\<exists>c'. Remove c x = Inr (c', True))) \<and>
         (\<forall>c'. Remove c x = Inr (c', True) \<longrightarrow> Get c' k = Inr elt)"
proof (intro conjI allI impI)
  assume "x |\<in>| fmdom (members c) \<and> rebuild_ok c"
  with r show "\<exists>c'. Remove c x = Inr (c', True)"
    by (simp add: Remove_Inr_True)
next
  fix c' assume rem: "Remove c x = Inr (c', True)"
  let ?P = "fmdom' (circle c)" and ?Q = "fmdom' (circle c')"
  let ?h = "hashKey c k"
  let ?p = "ring_successor ?P ?h"
  from rem r have c': "c' = remove_result c x n"
    by (auto simp: Remove_Inr_True)
  have lk: "\<And>h. fmlookup (circle c') h =
      (if h \<in> replica_positions c x n then None else fmlookup (circle c) h)"
    unfolding c' by (rule remove_result_lookup)
  from Get_Inr_served[OF m g] have p: "?p \<in> ?P" "fmlookup (circle c) ?p = Some elt"
    by simp_all
  with own ne have notin: "?p \<notin> replica_positions c x n" by blast
  with p lk have p': "fmlookup (circle c') ?p = Some elt" by simp
  then have inQ: "?p \<in> ?Q" by (simp add: fmlookup_dom'_iff)
  have sub: "?Q \<subseteq> ?P"
    by (auto simp: fmlookup_dom'_iff lk split: if_splits)
  from ring_successor_subset[OF _ sub inQ] have s: "ring_successor ?Q ?h = ?p" by simp
  have m': "index_matches c'" unfolding c' by (rule index_matches_remove_result)
  from inQ have ne': "len_circle c' \<noteq> 0"
    by (auto simp: len_circle_def fmdom'_alt_def)
  have hk: "hashKey c' = hashKey c" unfolding c' by simp
  from Get_served_by_successor[OF m' ne', of k] show "Get c' k = Inr elt"
    by (simp add: hk s circle_at_def p')
qed

lemma rebuild_ok_New_fnv: "rebuild_ok (New fnv_config)"
  by (simp add: rebuild_ok_def New_def fnv_config_def mul_int64_def)

lemma Add_all_fnv_ABC:
  "Add_all (New fnv_config) [(''A'', [2]), (''B'', [2]), (''C'', [2])] =
     Inr (add_result (add_result (add_result (New fnv_config) ''A'' 2) ''B'' 2) ''C'' 2)"
  by (simp add: Add_absent add_ok rebuild_ok_New_fnv)

theorem Remove_keeps_other_members_keys_witness:
  "(case Add_all (New fnv_config) [(''A'', [2]), (''B'', [2]), (''C'', [2])] of
      Inl e \<Rightarrow> False
    | Inr c \<Rightarrow>
        index_matches c \<and>
        Get c ''user0'' = Inr ''A'' \<and> Get c ''user13'' = Inr ''B'' \<and>
        (case Remove c ''C'' of
           Inl e \<Rightarrow> False
         | Inr (c', b) \<Rightarrow>
             b \<and> Get c' ''user0'' = Inr ''A'' \<and> Get c' ''user13'' = Inr ''B''))"
proof -
  let ?c2 = "add_result (add_result (New fnv_config) ''A'' 2) ''B'' 2"
  let ?c = "add_result ?c2 ''C'' 2"
  let ?c' = "remove_result ?c ''C'' 2"
  have i: "index_matches ?c" by (rule index_matches_add_result)
  have n: "fmlookup (membersReplicas ?c) ''C'' = Some 2" by simp
  have r: "Remove ?c ''C'' = Inr (?c', True)"
    by (simp add: Remove_Inr_True rebuild_ok_New_fnv)
  have own: "\<forall>h \<in> replica_positions ?c ''C'' 2. \<forall>elt.
      fmlookup (circle ?c) h = Some elt \<longrightarrow> elt = ''C''"
    by (simp add: add_result_lookup)
  have g: "Get ?c ''user0'' = Inr ''A''" "Get ?c ''user13'' = Inr ''B''"
    by code_simp+
  have "Get ?c' ''user0'' = Inr ''A''"
    using Remove_keeps_other_members_keys[OF i n own g(1)] r by simp
  moreover have "Get ?c' ''user13'' = Inr ''B''"
    using Remove_keeps_other_members_keys[OF i n own g(2)] r by simp
  ultimately show ?thesis
    using i g by (simp only: Add_all_fnv_ABC r sum.case prod.case simp_thms)
qed

text \<open>
  C1 as stated fails when a replica hash of the removed member is a position another
  member owns.  With the byte-sum hasher, after \<open>Add C 1\<close>, \<open>Add B 1\<close>, \<open>Add A 1\<close> the
  position 57 written for \<open>C\<close> is owned by \<open>B\<close>; the key \<open>''p''\<close> (hash 56) is served by it.
  \<open>Remove C\<close> deletes position 57, and the key moves from \<open>B\<close> to \<open>A\<close>.
\<close>

theorem Remove_remaps_other_members_key_counterexample:
  "Add_all (New byte_sum_config) [(''C'', [1]), (''B'', [1]), (''A'', [1])] = Inr ring_CBA \<and>
   Get ring_CBA ''p'' = Inr ''B'' \<and>
   Remove ring_CBA ''C'' = Inr (ring_BA, True) \<and>
   Get ring_BA ''p'' = Inr ''A''"
proof -
  have a: "Add_all (New byte_sum_config) [(''C'', [1]), (''B'', [1]), (''A'', [1])] = Inr ring_CBA"
    by (simp add: ring_CBA_def Add_absent add_ok rebuild_ok_New_byte_sum)
  have r: "Remove ring_CBA ''C'' = Inr (ring_BA, True)"
    by (simp add: ring_BA_def ring_CBA_def Remove_Inr_True rebuild_ok_New_byte_sum)
  have g: "Get ring_CBA ''p'' = Inr ''B''" by code_simp
  have g': "Get ring_BA ''p'' = Inr ''A''" by code_simp
  from a r g g' show ?thesis by simp
qed

section \<open>Reconciling the member set\<close>

lemma stored_replicas_remove_result:
  "k' \<noteq> k \<Longrightarrow> stored_replicas (remove_result c k v) k' = stored_replicas c k'"
  by (simp add: stored_replicas_def)

lemma Set_remove_loop_effect:
  "Set_remove_loop ks elts c = Inr c1 \<Longrightarrow>
   R = {k \<in> set ks. k \<notin> set elts \<and> k |\<in>| fmdom (membersReplicas c)} \<Longrightarrow>
   (\<forall>m. fmlookup (members c1) m = (if m \<in> R then None else fmlookup (members c) m)) \<and>
   (\<forall>m. fmlookup (membersReplicas c1) m =
         (if m \<in> R then None else fmlookup (membersReplicas c) m)) \<and>
   (\<forall>h. fmlookup (circle c1) h =
         (if h \<in> (\<Union>k \<in> R. replica_positions c k (stored_replicas c k)) then None
          else fmlookup (circle c) h)) \<and>
   defaultNumberOfReplicas c1 = defaultNumberOfReplicas c \<and>
   customHasher c1 = customHasher c \<and> useFnv c1 = useFnv c"
proof (induction ks arbitrary: c R)
  case Nil
  then show ?case by simp
next
  case (Cons k ks)
  show ?case
  proof (cases "k \<notin> set elts \<and> fmlookup (membersReplicas c) k \<noteq> None")
    case True
    then obtain v where v: "fmlookup (membersReplicas c) k = Some v" by auto
    let ?c2 = "remove_result c k v"
    let ?R2 = "{k' \<in> set ks. k' \<notin> set elts \<and> k' |\<in>| fmdom (membersReplicas ?c2)}"
    from True v Cons.prems(1) have r: "Set_remove_loop ks elts ?c2 = Inr c1"
      by (auto simp: remove_Inr remove_Inl split: sum.splits)
    note IH = Cons.IH[OF r refl]
    have kR: "k \<in> R" using True v Cons.prems(2) by (auto simp: fmlookup_dom_iff)
    have R: "R = insert k ?R2"
      using True v Cons.prems(2) by (auto simp: fmlookup_dom_iff)
    have st: "stored_replicas c k = v" using v by (simp add: stored_replicas_def)
    have U: "(\<Union>k' \<in> R. replica_positions c k' (stored_replicas c k')) =
        replica_positions c k v \<union>
        (\<Union>k' \<in> ?R2. replica_positions ?c2 k' (stored_replicas ?c2 k'))"
    proof -
      have "\<And>k'. k' \<in> ?R2 \<Longrightarrow> stored_replicas ?c2 k' = stored_replicas c k'"
        by (rule stored_replicas_remove_result) auto
      then have "(\<Union>k' \<in> ?R2. replica_positions ?c2 k' (stored_replicas ?c2 k')) =
          (\<Union>k' \<in> ?R2. replica_positions c k' (stored_replicas c k'))"
        by simp
      then show ?thesis unfolding R by (simp add: st)
    qed
    have m: "\<forall>m. fmlookup (members c1) m = (if m \<in> R then None else fmlookup (members c) m)"
      using IH unfolding R by auto
    have mr: "\<forall>m. fmlookup (membersReplicas c1) m =
         (if m \<in> R then None else fmlookup (membersReplicas c) m)"
      using IH unfolding R by auto
    have ci: "\<forall>h. fmlookup (circle c1) h =
         (if h \<in> (\<Union>k \<in> R. replica_positions c k (stored_replicas c k)) then None
          else fmlookup (circle c) h)"
      using IH unfolding U by (auto simp: remove_result_lookup)
    from IH have "defaultNumberOfReplicas c1 = defaultNumberOfReplicas c \<and>
        customHasher c1 = customHasher c \<and> useFnv c1 = useFnv c"
      by simp
    with m mr ci show ?thesis by blast
  next
    case False
    with Cons.prems(1) have r: "Set_remove_loop ks elts c = Inr c1"
      by (auto split: option.splits)
    have "R = {k' \<in> set ks. k' \<notin> set elts \<and> k' |\<in>| fmdom (membersReplicas c)}"
      using False Cons.prems(2) by (auto simp: fmlookup_dom_iff)
    from Cons.IH[OF r this] show ?thesis .
  qed
qed

lemma Set_add_loop_effect:
  "Set_add_loop vs c = Inr c2 \<Longrightarrow>
   A = {v \<in> set vs. v |\<notin>| fmdom (members c)} \<Longrightarrow>
   d = defaultNumberOfReplicas c \<Longrightarrow>
   (\<forall>m. fmlookup (members c2) m = (if m \<in> A then Some True else fmlookup (members c) m)) \<and>
   (\<forall>m. fmlookup (membersReplicas c2) m =
         (if m \<in> A then Some d else fmlookup (membersReplicas c) m)) \<and>
   (\<forall>h. h \<notin> (\<Union>v \<in> A. replica_positions c v d) \<longrightarrow>
         fmlookup (circle c2) h = fmlookup (circle c) h) \<and>
   (\<forall>h \<in> (\<Union>v \<in> A. replica_positions c v d).
      \<exists>v \<in> A. h \<in> replica_positions c v d \<and> fmlookup (circle c2) h = Some v)"
proof (induction vs arbitrary: c A)
  case Nil
  then show ?case by simp
next
  case (Cons v vs)
  show ?case
  proof (cases "v |\<in>| fmdom (members c)")
    case True
    with Cons.prems(1) have r: "Set_add_loop vs c = Inr c2" by simp
    have "A = {v' \<in> set vs. v' |\<notin>| fmdom (members c)}"
      using True Cons.prems(2) by auto
    from Cons.IH[OF r this Cons.prems(3)] show ?thesis .
  next
    case False
    let ?c1 = "add_result c v d"
    let ?A1 = "{v' \<in> set vs. v' |\<notin>| fmdom (members ?c1)}"
    from False Cons.prems(1,3) have r: "Set_add_loop vs ?c1 = Inr c2"
      by (auto simp: add_Inr add_Inl split: sum.splits)
    have d1: "d = defaultNumberOfReplicas ?c1" using Cons.prems(3) by simp
    note IH = Cons.IH[OF r refl d1]
    have A: "A = insert v ?A1" using False Cons.prems(2) by auto
    have vA1: "v \<notin> ?A1" by simp
    have m: "\<forall>m. fmlookup (members c2) m = (if m \<in> A then Some True else fmlookup (members c) m)"
      using IH unfolding A by auto
    have mr: "\<forall>m. fmlookup (membersReplicas c2) m =
         (if m \<in> A then Some d else fmlookup (membersReplicas c) m)"
      using IH unfolding A by auto
    have keep: "\<forall>h. h \<notin> (\<Union>v \<in> A. replica_positions c v d) \<longrightarrow>
         fmlookup (circle c2) h = fmlookup (circle c) h"
      using IH unfolding A by (auto simp: add_result_lookup)
    have new: "\<forall>h \<in> (\<Union>v \<in> A. replica_positions c v d).
      \<exists>v \<in> A. h \<in> replica_positions c v d \<and> fmlookup (circle c2) h = Some v"
    proof
      fix h assume h: "h \<in> (\<Union>v \<in> A. replica_positions c v d)"
      show "\<exists>v \<in> A. h \<in> replica_positions c v d \<and> fmlookup (circle c2) h = Some v"
      proof (cases "h \<in> (\<Union>v' \<in> ?A1. replica_positions c v' d)")
        case True
        then have "h \<in> (\<Union>v' \<in> ?A1. replica_positions ?c1 v' d)" by simp
        with IH have "\<exists>v' \<in> ?A1. h \<in> replica_positions ?c1 v' d \<and>
            fmlookup (circle c2) h = Some v'"
          by blast
        then obtain v' where "v' \<in> ?A1" "h \<in> replica_positions c v' d"
          "fmlookup (circle c2) h = Some v'"
          by auto
        then show ?thesis unfolding A by blast
      next
        case False
        with h have hv: "h \<in> replica_positions c v d" unfolding A by auto
        from False IH have "fmlookup (circle c2) h = fmlookup (circle ?c1) h" by simp
        with hv have "fmlookup (circle c2) h = Some v" by (simp add: add_result_lookup)
        with hv show ?thesis unfolding A by blast
      qed
    qed
    from m mr keep new show ?thesis by blast
  qed
qed

lemma replicas_recorded_preserved:
  "replicas_recorded (New conf)"
  "replicas_recorded c \<Longrightarrow> replicas_recorded (add_result c elt n)"
  "replicas_recorded c \<Longrightarrow> replicas_recorded (remove_result c elt n)"
  by (auto simp: replicas_recorded_def)

lemma Set_from_effect:
  assumes ks: "set ks = fmdom' (members c)"
    and rec: "replicas_recorded c"
    and S: "Set_from ks c elts = Inr c'"
  shows "fmdom' (members c') = set elts \<and>
    (\<forall>v \<in> set elts. fmlookup (membersReplicas c') v =
       (if v \<in> fmdom' (members c) then fmlookup (membersReplicas c) v
        else Some (defaultNumberOfReplicas c))) \<and>
    (\<forall>h. h \<notin> added_positions c elts \<longrightarrow>
       fmlookup (circle c') h =
         (if h \<in> removed_positions c elts then None else fmlookup (circle c) h)) \<and>
    (\<forall>h \<in> added_positions c elts.
       \<exists>v \<in> added_by_Set c elts.
         h \<in> replica_positions c v (defaultNumberOfReplicas c) \<and>
         fmlookup (circle c') h = Some v)"
proof -
  let ?d = "defaultNumberOfReplicas c"
  from S obtain c1 where L1: "Set_remove_loop ks elts c = Inr c1"
    and L2: "Set_add_loop elts c1 = Inr c'"
    by (auto simp: Set_from_def split: sum.splits)
  let ?R = "{k \<in> set ks. k \<notin> set elts \<and> k |\<in>| fmdom (membersReplicas c)}"
  have R: "?R = removed_by_Set c elts"
    using ks rec by (auto simp: removed_by_Set_def replicas_recorded_def fmdom'_alt_def)
  note E1 = Set_remove_loop_effect[OF L1 refl]
  from E1 have m1: "\<And>m. fmlookup (members c1) m =
      (if m \<in> removed_by_Set c elts then None else fmlookup (members c) m)"
    unfolding R by blast
  from E1 have mr1: "\<And>m. fmlookup (membersReplicas c1) m =
      (if m \<in> removed_by_Set c elts then None else fmlookup (membersReplicas c) m)"
    unfolding R by blast
  from E1 have ci1: "\<And>h. fmlookup (circle c1) h =
      (if h \<in> removed_positions c elts then None else fmlookup (circle c) h)"
    unfolding R removed_positions_def by blast
  from E1 have fr: "defaultNumberOfReplicas c1 = ?d" "customHasher c1 = customHasher c"
    "useFnv c1 = useFnv c"
    by blast+
  have rp: "replica_positions c1 = replica_positions c"
    by (rule replica_positions_cong) (rule fr)+
  let ?A = "{v \<in> set elts. v |\<notin>| fmdom (members c1)}"
  have A: "?A = added_by_Set c elts"
    by (auto simp: added_by_Set_def removed_by_Set_def fmlookup_dom_iff fmlookup_dom'_iff m1)
  note E2 = Set_add_loop_effect[OF L2 refl refl]
  from E2 have m2: "\<And>m. fmlookup (members c') m =
      (if m \<in> added_by_Set c elts then Some True else fmlookup (members c1) m)"
    unfolding A by blast
  from E2 have mr2: "\<And>m. fmlookup (membersReplicas c') m =
      (if m \<in> added_by_Set c elts then Some ?d else fmlookup (membersReplicas c1) m)"
    unfolding A fr by blast
  from E2 have keep: "\<And>h. h \<notin> added_positions c elts \<Longrightarrow>
      fmlookup (circle c') h = fmlookup (circle c1) h"
    unfolding A fr rp added_positions_def by blast
  from E2 have new: "\<forall>h \<in> added_positions c elts.
       \<exists>v \<in> added_by_Set c elts.
         h \<in> replica_positions c v ?d \<and> fmlookup (circle c') h = Some v"
    unfolding A fr rp added_positions_def by blast
  have mem: "fmdom' (members c') = set elts"
    by (auto simp: fmlookup_dom'_iff m1 m2 added_by_Set_def removed_by_Set_def
        split: if_splits)
  have cnt: "\<forall>v \<in> set elts. fmlookup (membersReplicas c') v =
       (if v \<in> fmdom' (members c) then fmlookup (membersReplicas c) v else Some ?d)"
    by (auto simp: mr1 mr2 added_by_Set_def removed_by_Set_def)
  have pos: "\<forall>h. h \<notin> added_positions c elts \<longrightarrow>
       fmlookup (circle c') h =
         (if h \<in> removed_positions c elts then None else fmlookup (circle c) h)"
    using keep ci1 by simp
  from mem cnt pos new show ?thesis by blast
qed

lemma Set_from_retained_positions:
  assumes ks: "set ks = fmdom' (members c)"
    and rec: "replicas_recorded c"
    and S: "Set_from ks c elts = Inr c'"
    and m: "m \<in> fmdom' (members c)" "m \<in> set elts"
  shows "positions_of c' m =
         positions_of c m - (removed_positions c elts \<union> added_positions c elts)"
proof -
  note E = Set_from_effect[OF ks rec S]
  from E have keep: "\<And>h. h \<notin> added_positions c elts \<Longrightarrow>
       fmlookup (circle c') h =
         (if h \<in> removed_positions c elts then None else fmlookup (circle c) h)"
    by blast
  from E have new: "\<And>h. h \<in> added_positions c elts \<Longrightarrow>
       \<exists>v \<in> added_by_Set c elts. fmlookup (circle c') h = Some v"
    by blast
  have notadded: "m \<notin> added_by_Set c elts" using m by (simp add: added_by_Set_def)
  show ?thesis
  proof (intro set_eqI iffI)
    fix h assume "h \<in> positions_of c' m"
    then have l: "fmlookup (circle c') h = Some m" by (simp add: positions_of_def)
    have na: "h \<notin> added_positions c elts"
    proof
      assume "h \<in> added_positions c elts"
      from new[OF this] l notadded show False by auto
    qed
    from keep[OF na] l have "h \<notin> removed_positions c elts" "fmlookup (circle c) h = Some m"
      by (auto split: if_splits)
    with na show "h \<in> positions_of c m - (removed_positions c elts \<union> added_positions c elts)"
      by (simp add: positions_of_def fmlookup_dom'_iff)
  next
    fix h assume "h \<in> positions_of c m - (removed_positions c elts \<union> added_positions c elts)"
    then have "fmlookup (circle c) h = Some m" "h \<notin> removed_positions c elts"
      "h \<notin> added_positions c elts"
      by (simp_all add: positions_of_def)
    with keep[of h] show "h \<in> positions_of c' m"
      by (simp add: positions_of_def fmlookup_dom'_iff)
  qed
qed

text \<open>
  C7, amended.  Let every member of the ring have a stored replica count (as on every
  ring built by the operations), and let \<open>Set\<close> range over the members in any order
  \<open>ks\<close>; \<open>Set c elts\<close> is \<open>Set_from ks c elts\<close> for one such order.  If the call returns,
  which it does unless the rebuild panics, then: the member set is exactly the set of
  listed names; a listed name that was a member keeps its stored replica count and one
  that was not gets the default; the positions computed from the stored counts of the
  removed members are deleted and those computed from the default for the added names
  are written to them; every other position is unchanged.  A retained member keeps
  exactly those of its positions that are not a replica hash of a removed or an added
  member, hence all of them when no such hash collides with one of its own.
\<close>

theorem Set_reconciles_members:
  assumes "set ks = fmdom' (members c)" and "replicas_recorded c"
  shows "(rebuild_ok c \<longrightarrow> (\<exists>c'. Set_from ks c elts = Inr c')) \<and>
    (\<forall>c'. Set_from ks c elts = Inr c' \<longrightarrow>
       fmdom' (members c') = set elts \<and>
       (\<forall>v \<in> set elts. fmlookup (membersReplicas c') v =
          (if v \<in> fmdom' (members c) then fmlookup (membersReplicas c) v
           else Some (defaultNumberOfReplicas c))) \<and>
       (\<forall>h. h \<notin> added_positions c elts \<longrightarrow>
          fmlookup (circle c') h =
            (if h \<in> removed_positions c elts then None else fmlookup (circle c) h)) \<and>
       (\<forall>h \<in> added_positions c elts.
          \<exists>v \<in> added_by_Set c elts.
            h \<in> replica_positions c v (defaultNumberOfReplicas c) \<and>
            fmlookup (circle c') h = Some v) \<and>
       (\<forall>m \<in> fmdom' (members c) \<inter> set elts.
          positions_of c' m =
            positions_of c m - (removed_positions c elts \<union> added_positions c elts)))"
proof (intro conjI allI impI)
  assume "rebuild_ok c"
  then show "\<exists>c'. Set_from ks c elts = Inr c'" by (rule Set_from_returns)
next
  fix c' assume S: "Set_from ks c elts = Inr c'"
  note E = Set_from_effect[OF assms S]
  from E show "fmdom' (members c') = set elts" by blast
  from E show "\<forall>v \<in> set elts. fmlookup (membersReplicas c') v =
          (if v \<in> fmdom' (members c) then fmlookup (membersReplicas c) v
           else Some (defaultNumberOfReplicas c))" by blast
  from E show "\<forall>h \<in> added_positions c elts.
          \<exists>v \<in> added_by_Set c elts.
            h \<in> replica_positions c v (defaultNumberOfReplicas c) \<and>
            fmlookup (circle c') h = Some v" by blast
  show "\<forall>m \<in> fmdom' (members c) \<inter> set elts.
          positions_of c' m =
            positions_of c m - (removed_positions c elts \<union> added_positions c elts)"
    using Set_from_retained_positions[OF assms S] by blast
  fix h assume "h \<notin> added_positions c elts"
  with E show "fmlookup (circle c') h =
            (if h \<in> removed_positions c elts then None else fmlookup (circle c) h)"
    by blast
qed

lemma defaultNumberOfReplicas_New_byte_sum:
  "defaultNumberOfReplicas (New byte_sum_config) = 1"
  by (simp add: New_def byte_sum_config_def)

text \<open>
  C7 as stated fails in its last part when hashes collide.  On the ring with members
  \<open>A\<close> and \<open>B\<close> above, \<open>B\<close> owns position 57.  \<open>Set [B, C]\<close> keeps \<open>B\<close> as a member and
  adds \<open>C\<close>, whose only replica hashes to 57 as well: afterwards \<open>B\<close> owns no position.
\<close>

theorem Set_changes_retained_positions_counterexample:
  "Add_all (New byte_sum_config) [(''A'', [1]), (''B'', [1])] = Inr ring_AB \<and>
   Set ring_AB [''B'', ''C''] = Inr ring_BC \<and>
   ''B'' |\<in>| fmdom (members ring_AB) \<and>
   ''B'' |\<in>| fmdom (members ring_BC) \<and>
   positions_of ring_AB ''B'' = {57} \<and>
   positions_of ring_BC ''B'' = {}"
proof -
  have a: "Add_all (New byte_sum_config) [(''A'', [1]), (''B'', [1])] = Inr ring_AB"
    by (simp add: ring_AB_def Add_absent add_ok rebuild_ok_New_byte_sum)
  have ks: "sorted_list_of_fset (fmdom (members ring_AB)) = [''A'', ''B'']"
    by code_simp
  have s: "Set ring_AB [''B'', ''C''] = Inr ring_BC"
    unfolding Set_def ks
    by (simp add: Set_from_def ring_BC_def ring_AB_def remove_ok add_ok
        rebuild_ok_New_byte_sum defaultNumberOfReplicas_New_byte_sum)
  have m: "''B'' |\<in>| fmdom (members ring_AB)" "''B'' |\<in>| fmdom (members ring_BC)"
    by (simp_all add: ring_BC_def ring_AB_def)
  have p: "positions_of ring_AB ''B'' = {57}" "positions_of ring_BC ''B'' = {}"
    by code_simp+
  from a s m p show ?thesis by simp
qed

lemma Add_all_byte_sum_AE:
  "Add_all (New byte_sum_config) [(''A'', [1]), (''E'', [2])] =
     Inr (add_result (add_result (New byte_sum_config) ''A'' 1) ''E'' 2)"
  by (simp add: Add_absent add_ok rebuild_ok_New_byte_sum)

theorem Set_reconciles_members_witness:
  "(case Add_all (New byte_sum_config) [(''A'', [1]), (''E'', [2])] of
      Inl e \<Rightarrow> False
    | Inr c \<Rightarrow>
        replicas_recorded c \<and> rebuild_ok c \<and>
        positions_of c ''E'' = {58, 59} \<and>
        (case Set c [''E'', ''I''] of
           Inl e \<Rightarrow> False
         | Inr c' \<Rightarrow>
             fmdom' (members c') = {''E'', ''I''} \<and>
             fmlookup (membersReplicas c') ''E'' = Some 2 \<and>
             fmlookup (membersReplicas c') ''I'' = Some 1 \<and>
             fmlookup (circle c') 56 = None \<and>
             fmlookup (circle c') 60 = Some ''I'' \<and>
             positions_of c' ''E'' = {58, 59}))"
proof -
  let ?c = "add_result (add_result (New byte_sum_config) ''A'' 1) ''E'' 2"
  let ?ks = "sorted_list_of_fset (fmdom (members ?c))"
  let ?elts = "[''E'', ''I'']"
  have ks: "set ?ks = fmdom' (members ?c)"
    by (simp add: fmdom'_alt_def)
  have rec: "replicas_recorded ?c"
    by (intro replicas_recorded_preserved)
  have ok: "rebuild_ok ?c" by (simp add: rebuild_ok_New_byte_sum)
  note T = Set_reconciles_members[OF ks rec, of ?elts]
  from T ok obtain c' where S: "Set ?c ?elts = Inr c'"
    unfolding Set_def by blast
  then have S': "Set_from ?ks ?c ?elts = Inr c'" by (simp add: Set_def)
  have rm: "removed_positions ?c ?elts = {56}" by code_simp
  have ad: "added_positions ?c ?elts = {60}" by code_simp
  have ab: "added_by_Set ?c ?elts = {''I''}" by code_simp
  have pe: "positions_of ?c ''E'' = {58, 59}" by code_simp
  have d: "defaultNumberOfReplicas ?c = 1"
    by (simp add: defaultNumberOfReplicas_New_byte_sum)
  from T S' have 1: "fmdom' (members c') = set ?elts" by blast
  from T S' have 2: "\<forall>v \<in> set ?elts. fmlookup (membersReplicas c') v =
          (if v \<in> fmdom' (members ?c) then fmlookup (membersReplicas ?c) v
           else Some (defaultNumberOfReplicas ?c))" by blast
  from T S' have 3: "\<forall>h. h \<notin> added_positions ?c ?elts \<longrightarrow>
          fmlookup (circle c') h =
            (if h \<in> removed_positions ?c ?elts then None else fmlookup (circle ?c) h)"
    by blast
  from T S' have 4: "\<forall>h \<in> added_positions ?c ?elts.
          \<exists>v \<in> added_by_Set ?c ?elts.
            h \<in> replica_positions ?c v (defaultNumberOfReplicas ?c) \<and>
            fmlookup (circle c') h = Some v" by blast
  from T S' have 5: "\<forall>m \<in> fmdom' (members ?c) \<inter> set ?elts.
          positions_of c' m =
            positions_of ?c m - (removed_positions ?c ?elts \<union> added_positions ?c ?elts)"
    by blast
  from 1 have r1: "fmdom' (members c') = {''E'', ''I''}" by auto
  from 2 d have r2: "fmlookup (membersReplicas c') ''E'' = Some 2"
    "fmlookup (membersReplicas c') ''I'' = Some 1"
    by simp_all
  from 3 have r3: "fmlookup (circle c') 56 = None" unfolding rm ad by simp
  from 4 have r4: "fmlookup (circle c') 60 = Some ''I''" unfolding ad ab by simp
  from 5 have "positions_of c' ''E'' =
      positions_of ?c ''E'' - (removed_positions ?c ?elts \<union> added_positions ?c ?elts)"
    by simp
  also have "\<dots> = {58, 59} - ({56} \<union> {60})" by (simp only: rm ad pe)
  also have "\<dots> = {58, 59}" by simp
  finally have r5: "positions_of c' ''E'' = {58, 59}" .
  from rec ok pe r1 r2 r3 r4 r5 show ?thesis
    by (simp only: Add_all_byte_sum_AE S sum.case simp_thms)
qed

section \<open>The loop of \<open>GetN\<close> in closed form\<close>

lemma sliceContainsMember_iff: "sliceContainsMember res elem \<longleftrightarrow> elem \<in> set res"
  by (induction res) auto

lemma set_first_occurrences [simp]: "set (first_occurrences xs) = set xs"
  by (induction xs rule: first_occurrences.induct) auto

lemma distinct_first_occurrences [simp]: "distinct (first_occurrences xs)"
  by (induction xs rule: first_occurrences.induct) auto

lemma length_first_occurrences: "length (first_occurrences xs) = card (set xs)"
  by (metis distinct_card distinct_first_occurrences set_first_occurrences)

lemma collect_take:
  "distinct res \<Longrightarrow> int (length res) < n \<Longrightarrow>
   collect n res ws =
     take (nat n) (res @ first_occurrences (filter (\<lambda>y. y \<notin> set res) ws))"
proof (induction ws arbitrary: res)
  case Nil
  then show ?case by simp
next
  case (Cons e es)
  show ?case
  proof (cases "e \<in> set res")
    case True
    with Cons.prems have "collect n res (e # es) = collect n res es"
      by (simp add: sliceContainsMember_iff)
    with Cons.IH[OF Cons.prems] True show ?thesis by simp
  next
    case False
    let ?res1 = "res @ [e]"
    have d1: "distinct ?res1" using False Cons.prems(1) by simp
    have f: "filter (\<lambda>y. y \<noteq> e) (filter (\<lambda>y. y \<notin> set res) es) =
             filter (\<lambda>y. y \<notin> set ?res1) es"
      by (induction es) auto
    have "filter (\<lambda>y. y \<notin> set res) (e # es) = e # filter (\<lambda>y. y \<notin> set res) es"
      using False by simp
    then have "first_occurrences (filter (\<lambda>y. y \<notin> set res) (e # es)) =
        e # first_occurrences (filter (\<lambda>y. y \<notin> set ?res1) es)"
      by (simp only: first_occurrences.simps f)
    then have rhs: "res @ first_occurrences (filter (\<lambda>y. y \<notin> set res) (e # es)) =
        ?res1 @ first_occurrences (filter (\<lambda>y. y \<notin> set ?res1) es)"
      by simp
    show ?thesis
    proof (cases "int (length ?res1) = n")
      case True
      then have "collect n res (e # es) = ?res1"
        using False by (simp add: sliceContainsMember_iff)
      moreover have "nat n = length ?res1" using True by simp
      ultimately show ?thesis unfolding rhs by simp
    next
      case ne: False
      with Cons.prems(2) have lt: "int (length ?res1) < n" by simp
      have "collect n res (e # es) = collect n ?res1 es"
        using False ne by (simp add: sliceContainsMember_iff)
      also have "\<dots> = take (nat n) (?res1 @ first_occurrences (filter (\<lambda>y. y \<notin> set ?res1) es))"
        by (rule Cons.IH[OF d1 lt])
      finally show ?thesis unfolding rhs .
    qed
  qed
qed

lemma collect_Cons:
  "collect n res (elem # elems) =
     (if int (length (push_new res elem)) = n then push_new res elem
      else collect n (push_new res elem) elems)"
  by (simp add: push_new_def Let_def)

declare collect.simps(2) [simp del]

lemma Cons_eq_upt: "j # rest = [a..<b] \<Longrightarrow> a < b \<and> j = a \<and> rest = [a + 1..<b]"
  by (cases "a < b") (auto simp: upt_conv_Cons)

lemma GetN_loop_stop: "GetN_loop c n start start res = Some (Inr res)"
  by (subst GetN_loop.simps) simp

lemma GetN_loop_step:
  assumes "i \<noteq> start" and "i < length (sortedHashes c)"
  shows "GetN_loop c n start i res =
     (if int (length (push_new res (owner_at c i))) = n
      then Some (Inr (push_new res (owner_at c i)))
      else GetN_loop c n start (i + 1) (push_new res (owner_at c i)))"
  using assms by (subst GetN_loop.simps) (simp add: Let_def push_new_def owner_at_def)

lemma GetN_loop_wrap:
  assumes "i \<noteq> start" and "length (sortedHashes c) \<le> i" and "sortedHashes c \<noteq> []"
  shows "GetN_loop c n start i res =
     (if int (length (push_new res (owner_at c 0))) = n
      then Some (Inr (push_new res (owner_at c 0)))
      else GetN_loop c n start 1 (push_new res (owner_at c 0)))"
  using assms by (subst GetN_loop.simps) (simp add: Let_def push_new_def owner_at_def)

lemma GetN_loop_collect:
  assumes st: "start < length (sortedHashes c)"
  shows "ps = pending (length (sortedHashes c)) start i \<Longrightarrow>
    1 \<le> i \<Longrightarrow> i \<le> length (sortedHashes c) \<Longrightarrow> int (length res) \<noteq> n \<Longrightarrow>
    start \<noteq> 0 \<or> int (length (collect n res (map (owner_at c) ps))) = n \<Longrightarrow>
    GetN_loop c n start i res = Some (Inr (collect n res (map (owner_at c) ps)))"
proof (induction ps arbitrary: i res)
  case Nil
  show ?case
  proof (cases "start < i")
    case True
    with Nil.prems(1)[symmetric] Nil.prems(3) have "start = 0" by (simp add: pending_def)
    with Nil.prems(4,5) show ?thesis by simp
  next
    case False
    with Nil.prems(1)[symmetric] have "i = start" by (auto simp: pending_def)
    then show ?thesis by (simp add: GetN_loop_stop)
  qed
next
  case (Cons j rest)
  let ?len = "length (sortedHashes c)"
  have ne: "sortedHashes c \<noteq> []" using st by auto
  show ?case
  proof (cases "start < i")
    case A: True
    show ?thesis
    proof (cases "i < ?len")
      case True
      have p: "pending ?len start i = i # pending ?len start (i + 1)"
        using A True by (simp add: pending_def upt_conv_Cons)
      with Cons.prems(1) have j: "j = i" and rest: "rest = pending ?len start (i + 1)"
        by simp_all
      have ineq: "i \<noteq> start" using A by simp
      let ?res1 = "push_new res (owner_at c i)"
      show ?thesis
      proof (cases "int (length ?res1) = n")
        case True
        then show ?thesis
          by (simp add: GetN_loop_step[OF ineq \<open>i < ?len\<close>] j collect_Cons)
      next
        case False
        have c: "collect n res (map (owner_at c) (j # rest)) =
                 collect n ?res1 (map (owner_at c) rest)"
          using False by (simp add: j collect_Cons)
        from Cons.prems(5) have cond: "start \<noteq> 0 \<or>
            int (length (collect n ?res1 (map (owner_at c) rest))) = n"
          unfolding c .
        have "GetN_loop c n start (i + 1) ?res1 =
              Some (Inr (collect n ?res1 (map (owner_at c) rest)))"
          by (rule Cons.IH[OF rest _ _ False cond]) (use True in simp_all)
        then show ?thesis
          unfolding c using False by (simp add: GetN_loop_step[OF ineq \<open>i < ?len\<close>])
      qed
    next
      case False
      with Cons.prems(3) have il: "i = ?len" by simp
      have "pending ?len start i = [0..<start]" using A il by (simp add: pending_def)
      with Cons.prems(1) have "j # rest = [0..<start]" by simp
      from Cons_eq_upt[OF this]
      have s0: "0 < start" and j: "j = 0" and r0: "rest = [1..<start]"
        by simp_all
      have rest: "rest = pending ?len start 1" using s0 r0 by (simp add: pending_def)
      have ineq: "i \<noteq> start" using A by simp
      have ge: "?len \<le> i" using il by simp
      let ?res1 = "push_new res (owner_at c 0)"
      show ?thesis
      proof (cases "int (length ?res1) = n")
        case True
        then show ?thesis
          by (simp add: GetN_loop_wrap[OF ineq ge ne] j collect_Cons)
      next
        case False
        have c: "collect n res (map (owner_at c) (j # rest)) =
                 collect n ?res1 (map (owner_at c) rest)"
          using False by (simp add: j collect_Cons)
        from Cons.prems(5) have cond: "start \<noteq> 0 \<or>
            int (length (collect n ?res1 (map (owner_at c) rest))) = n"
          unfolding c .
        have "GetN_loop c n start 1 ?res1 =
              Some (Inr (collect n ?res1 (map (owner_at c) rest)))"
          by (rule Cons.IH[OF rest _ _ False cond]) (use st in simp_all)
        then show ?thesis
          unfolding c using False by (simp add: GetN_loop_wrap[OF ineq ge ne])
      qed
    qed
  next
    case B: False
    then have "pending ?len start i = [i..<start]" by (simp add: pending_def)
    with Cons.prems(1) have "j # rest = [i..<start]" by simp
    from Cons_eq_upt[OF this]
    have lt: "i < start" and j: "j = i" and r0: "rest = [i + 1..<start]"
      by simp_all
    have rest: "rest = pending ?len start (i + 1)" using lt r0 by (simp add: pending_def)
    have ineq: "i \<noteq> start" using lt by simp
    have il: "i < ?len" using lt st by simp
    let ?res1 = "push_new res (owner_at c i)"
    show ?thesis
    proof (cases "int (length ?res1) = n")
      case True
      then show ?thesis
        by (simp add: GetN_loop_step[OF ineq il] j collect_Cons)
    next
      case False
      have c: "collect n res (map (owner_at c) (j # rest)) =
               collect n ?res1 (map (owner_at c) rest)"
        using False by (simp add: j collect_Cons)
      from Cons.prems(5) have cond: "start \<noteq> 0 \<or>
          int (length (collect n ?res1 (map (owner_at c) rest))) = n"
        unfolding c .
      have "GetN_loop c n start (i + 1) ?res1 =
            Some (Inr (collect n ?res1 (map (owner_at c) rest)))"
        by (rule Cons.IH[OF rest _ _ False cond]) (use il in simp_all)
      then show ?thesis
        unfolding c using False by (simp add: GetN_loop_step[OF ineq il])
    qed
  qed
qed

lemma rotate_at_index:
  assumes "distinct xs" and "start < length xs"
  shows "dropWhile (\<lambda>q. q \<noteq> xs ! start) xs @ takeWhile (\<lambda>q. q \<noteq> xs ! start) xs =
         drop start xs @ take start xs"
proof -
  have t: "takeWhile (\<lambda>q. q \<noteq> xs ! start) xs = take start xs"
  proof (rule takeWhile_eq_take_P_nth)
    fix i assume "i < start" "i < length xs"
    with assms show "xs ! i \<noteq> xs ! start" by (simp add: nth_eq_iff_index_eq)
  qed simp
  have "dropWhile (\<lambda>q. q \<noteq> xs ! start) xs = drop start xs"
    using assms(2) by (simp add: dropWhile_eq_drop t)
  with t show ?thesis by simp
qed

lemma map_nth_from: "start \<le> length xs \<Longrightarrow> map (\<lambda>j. xs ! j) [start..<length xs] = drop start xs"
proof -
  have "drop start (map (\<lambda>j. xs ! j) [0..<length xs]) = map (\<lambda>j. xs ! j) [start..<length xs]"
    by (simp add: drop_map)
  then show ?thesis by (simp add: map_nth)
qed

lemma map_nth_upto: "start \<le> length xs \<Longrightarrow> map (\<lambda>j. xs ! j) [0..<start] = take start xs"
proof -
  assume s: "start \<le> length xs"
  have "take start (map (\<lambda>j. xs ! j) [0..<length xs]) = map (\<lambda>j. xs ! j) [0..<start]"
    using s by (simp add: take_map)
  then show ?thesis by (simp add: map_nth)
qed

lemma owners_in_walk_order:
  assumes "start < length (sortedHashes c)"
  shows "map (owner_at c) (start # pending (length (sortedHashes c)) start (start + 1)) =
         map (circle_at c) (drop start (sortedHashes c) @ take start (sortedHashes c))"
proof -
  let ?xs = "sortedHashes c"
  have "start # pending (length ?xs) start (start + 1) = [start..<length ?xs] @ [0..<start]"
    using assms by (simp add: pending_def upt_conv_Cons)
  moreover have "map (owner_at c) ([start..<length ?xs] @ [0..<start]) =
      map (circle_at c) (map (\<lambda>j. ?xs ! j) [start..<length ?xs] @ map (\<lambda>j. ?xs ! j) [0..<start])"
    by (simp add: owner_at_def)
  ultimately show ?thesis
    using assms by (simp only: map_nth_from map_nth_upto less_imp_le)
qed

lemma ring_order_search:
  assumes m: "index_matches c" and ne: "len_circle c \<noteq> 0"
  shows "ring_order c h =
         drop (search c h) (sortedHashes c) @ take (search c h) (sortedHashes c)"
proof -
  let ?xs = "sortedHashes c"
  from m have xs: "?xs = sorted_list_of_fset (fmdom (circle c))" by (simp add: index_matches_iff)
  from m have s: "sorted ?xs" and d: "set ?xs = fmdom' (circle c)"
    by (simp_all add: index_matches_def)
  have dist: "distinct ?xs" unfolding xs by (simp add: sorted_list_of_fset.rep_eq)
  from index_matches_nonempty[OF m ne] have nxs: "?xs \<noteq> []" .
  have p: "?xs ! search c h = ring_successor (fmdom' (circle c)) h"
    using search_successor[OF s nxs, of h] by (simp add: search_def Let_def d)
  have "ring_order c h =
        dropWhile (\<lambda>q. q \<noteq> ?xs ! search c h) ?xs @ takeWhile (\<lambda>q. q \<noteq> ?xs ! search c h) ?xs"
    by (simp add: ring_order_def Let_def xs[symmetric] p)
  also have "\<dots> = drop (search c h) ?xs @ take (search c h) ?xs"
    by (rule rotate_at_index[OF dist search_in_range[OF nxs]])
  finally show ?thesis .
qed

lemma owners_are_range:
  assumes m: "index_matches c"
  shows "circle_at c ` set (sortedHashes c) = fmran' (circle c)"
proof -
  from m have d: "set (sortedHashes c) = fmdom' (circle c)" by (simp add: index_matches_def)
  show ?thesis
    unfolding d
  proof (intro set_eqI iffI)
    fix x assume "x \<in> circle_at c ` fmdom' (circle c)"
    then obtain h where "h \<in> fmdom' (circle c)" "x = circle_at c h" by blast
    then show "x \<in> fmran' (circle c)"
      by (auto simp: circle_at_def fmlookup_dom'_iff fmlookup_ran'_iff)
  next
    fix x assume "x \<in> fmran' (circle c)"
    then obtain h where h: "fmlookup (circle c) h = Some x"
      by (auto simp: fmlookup_ran'_iff)
    then have "h \<in> fmdom' (circle c)" "circle_at c h = x"
      by (simp_all add: circle_at_def fmlookup_dom'_iff)
    then show "x \<in> circle_at c ` fmdom' (circle c)" by blast
  qed
qed

lemma ring_walk_unfold:
  fixes name :: string
  assumes m: "index_matches c" and ne: "len_circle c \<noteq> 0"
  defines "start \<equiv> search c (hashKey c name)"
  shows "ring_walk c name =
         owner_at c start #
         first_occurrences (filter (\<lambda>y. y \<noteq> owner_at c start)
           (map (owner_at c) (pending (length (sortedHashes c)) start (start + 1))))"
proof -
  from index_matches_nonempty[OF m ne] have nxs: "sortedHashes c \<noteq> []" .
  have st: "start < length (sortedHashes c)"
    unfolding start_def by (rule search_in_range[OF nxs])
  have "ring_walk c name =
        first_occurrences (map (owner_at c)
          (start # pending (length (sortedHashes c)) start (start + 1)))"
    unfolding ring_walk_def ring_order_search[OF m ne] owners_in_walk_order[OF st]
    by (simp only: start_def)
  then show ?thesis by simp
qed

lemma set_ring_walk:
  assumes m: "index_matches c" and ne: "len_circle c \<noteq> 0"
  shows "set (ring_walk c name) = fmran' (circle c)"
proof -
  let ?xs = "sortedHashes c" and ?s = "search c (hashKey c name)"
  have "set (drop ?s ?xs @ take ?s ?xs) = set ?xs"
    by (metis append_take_drop_id set_append sup_commute)
  then have "set (map (circle_at c) (drop ?s ?xs @ take ?s ?xs)) = circle_at c ` set ?xs"
    by (simp only: set_map)
  then have "set (map (circle_at c) (ring_order c (hashKey c name))) = fmran' (circle c)"
    unfolding ring_order_search[OF m ne] owners_are_range[OF m] .
  then show ?thesis
    by (simp add: ring_walk_def)
qed

lemma length_ring_walk:
  assumes m: "index_matches c" and ne: "len_circle c \<noteq> 0"
  shows "length (ring_walk c name) = card (fmran' (circle c))"
  using set_ring_walk[OF m ne, of name]
  by (simp add: ring_walk_def length_first_occurrences)

lemma ring_walk_nonempty:
  assumes m: "index_matches c" and ne: "len_circle c \<noteq> 0"
  shows "ring_walk c name \<noteq> []"
  unfolding ring_walk_unfold[OF m ne] by simp

lemma GetN_returns_walk:
  assumes m: "index_matches c" and ne: "len_circle c \<noteq> 0"
    and n1: "1 \<le> n" and c1: "1 \<le> count c"
    and ok: "min n (count c) \<le> int (card (fmran' (circle c))) \<or>
             search c (hashKey c name) \<noteq> 0"
  shows "GetN c name n = Some (Inr (take (nat (min n (count c))) (ring_walk c name)))"
proof -
  let ?len = "length (sortedHashes c)"
  define start where "start = search c (hashKey c name)"
  define n' where "n' = (if count c < n then count c else n)"
  define e where "e = owner_at c start"
  define ws where "ws = map (owner_at c) (pending ?len start (start + 1))"
  from index_matches_nonempty[OF m ne] have nxs: "sortedHashes c \<noteq> []" .
  have st: "start < ?len"
    unfolding start_def by (rule search_in_range[OF nxs])
  have n'min: "n' = min n (count c)" by (simp add: n'_def min_def)
  have walk: "ring_walk c name = e # first_occurrences (filter (\<lambda>y. y \<noteq> e) ws)"
    unfolding e_def ws_def start_def by (rule ring_walk_unfold[OF m ne])
  have lw: "length (ring_walk c name) = card (fmran' (circle c))"
    by (rule length_ring_walk[OF m ne])
  from n1 c1 have n'1: "1 \<le> n'" by (simp add: n'_def)
  have G: "GetN c name n =
      (if int (length [e]) = n' then Some (Inr [e])
       else GetN_loop c n' start (start + 1) [e])"
    using ne st n'1
    by (simp add: GetN_def Let_def n'_def[symmetric] start_def[symmetric]
        e_def owner_at_def)
  show ?thesis
  proof (cases "n' = 1")
    case True
    then show ?thesis unfolding G n'min[symmetric] by (simp add: walk)
  next
    case False
    with n'1 have lt: "int (length [e]) < n'" by simp
    have col: "collect n' [e] ws = take (nat n') (ring_walk c name)"
      using collect_take[of "[e]" n' ws, OF _ lt] by (simp add: walk)
    have "GetN_loop c n' start (start + 1) [e] = Some (Inr (collect n' [e] ws))"
      unfolding ws_def
    proof (rule GetN_loop_collect[OF st refl])
      show "1 \<le> start + 1" by simp
      show "start + 1 \<le> ?len" using st by simp
      show "int (length [e]) \<noteq> n'" using False by simp
      show "start \<noteq> 0 \<or>
            int (length (collect n' [e]
              (map (owner_at c) (pending ?len start (start + 1))))) = n'"
      proof (cases "start = 0")
        case True
        with ok have "n' \<le> int (length (ring_walk c name))"
          by (simp add: start_def n'min lw)
        then have "int (length (collect n' [e] ws)) = n'"
          unfolding col using n'1 by simp
        then show ?thesis unfolding ws_def by simp
      next
        case False
        then show ?thesis by simp
      qed
    qed
    then show ?thesis unfolding G n'min[symmetric] col using False by simp
  qed
qed

lemma Get_is_first_of_walk:
  assumes m: "index_matches c" and ne: "len_circle c \<noteq> 0"
  shows "Get c name = Inr (hd (ring_walk c name))"
proof -
  from index_matches_nonempty[OF m ne] have nxs: "sortedHashes c \<noteq> []" .
  show ?thesis
    unfolding ring_walk_unfold[OF m ne]
    using ne search_in_range[OF nxs, of "hashKey c name"]
    by (simp add: Get_def Let_def owner_at_def)
qed

section \<open>Walks that never end\<close>

lemma GetN_loop_diverges:
  assumes step: "\<And>res j. Inv res \<Longrightarrow> j < length (sortedHashes c) \<Longrightarrow>
      Inv (push_new res (owner_at c j)) \<and> int (length (push_new res (owner_at c j))) \<noteq> n"
    and ne: "sortedHashes c \<noteq> []"
    and inv: "Inv res" and i: "0 < i"
  shows "GetN_loop c n 0 i res = None"
proof (rule ccontr)
  assume "GetN_loop c n 0 i res \<noteq> None"
  then obtain y where y: "GetN_loop c n 0 i res = Some y" by auto
  have "\<not> (c = c \<and> n = n \<and> (0::nat) = 0 \<and> 0 < i \<and> Inv res)"
  proof (rule GetN_loop.raw_induct[where
        P = "\<lambda>c' n' s i' r' y'. \<not> (c' = c \<and> n' = n \<and> s = 0 \<and> 0 < i' \<and> Inv r')", OF _ y])
    fix f c' n' s i' r' y'
    assume IH: "\<And>c' n' s i' r' y'. f c' n' s i' r' = Some y' \<Longrightarrow>
        \<not> (c' = c \<and> n' = n \<and> s = 0 \<and> 0 < i' \<and> Inv r')"
      and F: "(if i' \<noteq> s then
             (let i1 = (if i' \<ge> length (sortedHashes c') then 0 else i') in
              if i1 < length (sortedHashes c') then
                (let elem = circle_at c' (sortedHashes c' ! i1);
                     res1 = (if \<not> sliceContainsMember r' elem then r' @ [elem] else r')
                 in if int (length res1) = n' then Some (Inr res1)
                    else f c' n' s (i1 + 1) res1)
              else Some (Inl PanicIndexOutOfRange))
           else Some (Inr r')) = Some y'"
    show "\<not> (c' = c \<and> n' = n \<and> s = 0 \<and> 0 < i' \<and> Inv r')"
    proof
      assume a: "c' = c \<and> n' = n \<and> s = 0 \<and> 0 < i' \<and> Inv r'"
      define i1 where "i1 = (if i' \<ge> length (sortedHashes c) then 0 else i')"
      have i1: "i1 < length (sortedHashes c)" using ne by (simp add: i1_def)
      from step[OF _ i1, of r'] a
      have s: "Inv (push_new r' (owner_at c i1))"
        "int (length (push_new r' (owner_at c i1))) \<noteq> n"
        by simp_all
      from F a i1 s(2) have "f c n 0 (i1 + 1) (push_new r' (owner_at c i1)) = Some y'"
        by (simp add: Let_def i1_def[symmetric] push_new_def owner_at_def)
      from IH[OF this] s(1) show False by simp
    qed
  qed
  with inv i show False by simp
qed

lemma GetTwo_loop_diverges:
  assumes own: "\<And>j. j < length (sortedHashes c) \<Longrightarrow> owner_at c j = a"
    and ne: "sortedHashes c \<noteq> []"
    and i: "0 < i"
  shows "GetTwo_loop c a 0 i b = None"
proof (rule ccontr)
  assume "GetTwo_loop c a 0 i b \<noteq> None"
  then obtain y where y: "GetTwo_loop c a 0 i b = Some y" by auto
  have "\<not> (c = c \<and> a = a \<and> (0::nat) = 0 \<and> 0 < i)"
  proof (rule GetTwo_loop.raw_induct[where
        P = "\<lambda>c' a' s i' b' y'. \<not> (c' = c \<and> a' = a \<and> s = 0 \<and> 0 < i')", OF _ y])
    fix f c' a' s i' b' y'
    assume IH: "\<And>c' a' s i' b' y'. f c' a' s i' b' = Some y' \<Longrightarrow>
        \<not> (c' = c \<and> a' = a \<and> s = 0 \<and> 0 < i')"
      and F: "(if i' \<noteq> s then
        (let i1 = (if i' \<ge> length (sortedHashes c') then 0 else i') in
         if i1 < length (sortedHashes c') then
           (let b1 = circle_at c' (sortedHashes c' ! i1) in
            if b1 \<noteq> a' then Some (Inr b1)
            else f c' a' s (i1 + 1) b1)
         else Some (Inl PanicIndexOutOfRange))
      else Some (Inr b')) = Some y'"
    show "\<not> (c' = c \<and> a' = a \<and> s = 0 \<and> 0 < i')"
    proof
      assume a: "c' = c \<and> a' = a \<and> s = 0 \<and> 0 < i'"
      define i1 where "i1 = (if i' \<ge> length (sortedHashes c) then 0 else i')"
      have i1: "i1 < length (sortedHashes c)" using ne by (simp add: i1_def)
      from own[OF i1] have o: "circle_at c (sortedHashes c ! i1) = a"
        by (simp add: owner_at_def)
      from F a i1 o have "f c a 0 (i1 + 1) a = Some y'"
        by (simp add: Let_def i1_def[symmetric])
      from IH[OF this] show False by simp
    qed
  qed
  with i show False by simp
qed

text \<open>
  When the search ends at index 0 and more members are asked for than own a position,
  the loop of \<open>GetN\<close> never ends.
\<close>

lemma GetN_never_returns:
  assumes m: "index_matches c" and ne: "len_circle c \<noteq> 0"
    and n1: "1 \<le> n" and c1: "1 \<le> count c"
    and s0: "search c (hashKey c name) = 0"
    and more: "int (card (fmran' (circle c))) < min n (count c)"
  shows "GetN c name n = None"
proof -
  let ?len = "length (sortedHashes c)" and ?R = "fmran' (circle c)"
  define n' where "n' = (if count c < n then count c else n)"
  define e where "e = owner_at c 0"
  from index_matches_nonempty[OF m ne] have nxs: "sortedHashes c \<noteq> []" .
  have n'min: "n' = min n (count c)" by (simp add: n'_def min_def)
  have fin: "finite ?R"
    using set_ring_walk[OF m ne, of name] by (metis List.finite_set)
  have own: "owner_at c j \<in> ?R" if "j < ?len" for j
  proof -
    from that have "owner_at c j \<in> circle_at c ` set (sortedHashes c)"
      by (simp add: owner_at_def)
    then show ?thesis unfolding owners_are_range[OF m] .
  qed
  from nxs have e: "e \<in> ?R" unfolding e_def by (intro own) simp
  with fin have "0 < card ?R" by (auto simp: card_gt_0_iff)
  with more have n'2: "2 \<le> n'" by (simp add: n'min)
  have G: "GetN c name n = GetN_loop c n' 0 1 [e]"
    using ne nxs n'2
    by (simp add: GetN_def Let_def n'_def[symmetric] s0 e_def owner_at_def)
  have "GetN_loop c n' 0 1 [e] = None"
  proof (rule GetN_loop_diverges[where Inv = "\<lambda>res. distinct res \<and> set res \<subseteq> ?R"])
    fix res j
    assume inv: "distinct res \<and> set res \<subseteq> ?R" and j: "j < ?len"
    let ?res = "push_new res (owner_at c j)"
    from inv own[OF j] have i': "distinct ?res \<and> set ?res \<subseteq> ?R"
      by (auto simp: push_new_def sliceContainsMember_iff)
    then have "length ?res = card (set ?res)" by (simp add: distinct_card)
    also from i' fin have "\<dots> \<le> card ?R" by (intro card_mono) simp_all
    finally have "int (length ?res) \<noteq> n'" using more unfolding n'min by arith
    with i' show "(distinct ?res \<and> set ?res \<subseteq> ?R) \<and> int (length ?res) \<noteq> n'" by simp
  next
    show "sortedHashes c \<noteq> []" by (rule nxs)
    show "distinct [e] \<and> set [e] \<subseteq> ?R" using e by simp
    show "(0::nat) < 1" by simp
  qed
  with G show ?thesis by simp
qed

section \<open>A ring with one position and two members\<close>

lemma add_loop_once:
  "add_loop c elt 1 0 = c\<lparr>circle := fmupd (hashKey c (eltKey elt 0)) elt (circle c)\<rparr>"
  by (subst add_loop.simps, simp, subst add_loop.simps, simp)

lemma sorted_list_of_fset_single: "sorted_list_of_fset {|x|} = [x]"
  by (simp add: sorted_list_of_fset.rep_eq)

lemma ring_a_b0_fields:
  "circle ring_a_b0 = fmupd (hashKey (New default_config) (eltKey ''a'' 0)) ''a'' fmempty"
  "sortedHashes ring_a_b0 = [hashKey (New default_config) (eltKey ''a'' 0)]"
  "count ring_a_b0 = 2"
proof -
  show c: "circle ring_a_b0 = fmupd (hashKey (New default_config) (eltKey ''a'' 0)) ''a'' fmempty"
    by (simp add: ring_a_b0_def add_result_def add_loop_once add_loop_nonpositive)
  have "sortedHashes ring_a_b0 = sorted_list_of_fset (fmdom (circle ring_a_b0))"
    by (simp add: ring_a_b0_def)
  then show "sortedHashes ring_a_b0 = [hashKey (New default_config) (eltKey ''a'' 0)]"
    by (simp add: c sorted_list_of_fset_single)
  show "count ring_a_b0 = 2" by (simp add: ring_a_b0_def)
qed

section \<open>GetN\<close>

text \<open>
  C4, amended.  Take a ring whose sorted index matches its position map, which holds a
  position and counts at least one member (as does every ring built by the operations
  that holds a position), an \<open>n \<ge> 1\<close>, and a key such that no more members are asked
  for than own a position (\<open>min n count\<close> is at most the number of owners) or the search
  for the key does not end at index 0 of the sorted index.  Then \<open>GetN\<close> returns the first
  \<open>min n count\<close> members of the walk that starts at the position serving the key and
  proceeds through the sorted positions with wraparound, each member listed where it is
  first met, and the whole walk when it has no more members than that.  The result is
  pairwise distinct, starts with the result of \<open>Get\<close>, and has \<open>min n count\<close> entries, or
  as many as there are owners when they are fewer; the walk lists exactly the members
  that own a position.  Where \<open>count\<close> is the number of members and every member owns a
  position, the result has \<open>min n m\<close> entries for \<open>m\<close> members.  Nothing is said of a key
  whose search ends at index 0 when more members are asked for than own a position.
\<close>

theorem GetN_first_members_of_walk:
  assumes "index_matches c" and "len_circle c \<noteq> 0"
    and "1 \<le> n" and "1 \<le> count c"
    and "min n (count c) \<le> int (card (fmran' (circle c))) \<or>
         search c (hashKey c name) \<noteq> 0"
  shows "GetN c name n = Some (Inr (take (nat (min n (count c))) (ring_walk c name))) \<and>
         distinct (take (nat (min n (count c))) (ring_walk c name)) \<and>
         int (length (take (nat (min n (count c))) (ring_walk c name))) =
           min (min n (count c)) (int (card (fmran' (circle c)))) \<and>
         Get c name = Inr (hd (take (nat (min n (count c))) (ring_walk c name))) \<and>
         set (ring_walk c name) = fmran' (circle c) \<and>
         (int (card (fmran' (circle c))) \<le> min n (count c) \<longrightarrow>
            take (nat (min n (count c))) (ring_walk c name) = ring_walk c name) \<and>
         (members_counted c \<and> fmran' (circle c) = fmdom' (members c) \<longrightarrow>
            int (length (take (nat (min n (count c))) (ring_walk c name))) =
              min n (int (fcard (fmdom (members c)))))"
proof -
  let ?k = "nat (min n (count c))"
  have lw: "length (ring_walk c name) = card (fmran' (circle c))"
    by (rule length_ring_walk[OF assms(1,2)])
  have k1: "1 \<le> ?k" using assms(3,4) by arith
  have g: "GetN c name n = Some (Inr (take ?k (ring_walk c name)))"
    by (rule GetN_returns_walk[OF assms])
  have d: "distinct (take ?k (ring_walk c name))"
    by (simp add: ring_walk_def)
  have l: "int (length (take ?k (ring_walk c name))) =
      min (min n (count c)) (int (card (fmran' (circle c))))"
    using k1 assms(3,4) unfolding length_take lw by arith
  have h: "Get c name = Inr (hd (take ?k (ring_walk c name)))"
  proof -
    from k1 have "0 < ?k" by arith
    then have "hd (take ?k (ring_walk c name)) = hd (ring_walk c name)"
      by (rule hd_take)
    with Get_is_first_of_walk[OF assms(1,2), of name] show ?thesis by simp
  qed
  have s: "set (ring_walk c name) = fmran' (circle c)"
    by (rule set_ring_walk[OF assms(1,2)])
  have a: "int (card (fmran' (circle c))) \<le> min n (count c) \<longrightarrow>
      take ?k (ring_walk c name) = ring_walk c name"
  proof
    assume "int (card (fmran' (circle c))) \<le> min n (count c)"
    then have "length (ring_walk c name) \<le> ?k" unfolding lw by arith
    then show "take ?k (ring_walk c name) = ring_walk c name" by (rule take_all)
  qed
  have mc: "members_counted c \<and> fmran' (circle c) = fmdom' (members c) \<longrightarrow>
            int (length (take ?k (ring_walk c name))) = min n (int (fcard (fmdom (members c))))"
  proof
    assume a: "members_counted c \<and> fmran' (circle c) = fmdom' (members c)"
    then have c: "count c = int (fcard (fmdom (members c)))"
      by (simp add: members_counted_def)
    from a have e: "card (fmran' (circle c)) = fcard (fmdom (members c))"
      by (simp add: fcard.rep_eq fmdom'_alt_def)
    from l show "int (length (take ?k (ring_walk c name))) =
        min n (int (fcard (fmdom (members c))))"
      unfolding c e by simp
  qed
  from g d l h s a mc show ?thesis by blast
qed

theorem GetN_first_members_of_walk_witness:
  "(case Add_all (New fnv_config) [(''A'', [2]), (''B'', [2]), (''C'', [2])] of
      Inl e \<Rightarrow> False
    | Inr c \<Rightarrow>
        index_matches c \<and> len_circle c \<noteq> 0 \<and> count c = 3 \<and>
        card (fmran' (circle c)) = 3 \<and>
        ring_walk c ''user10'' = [''C'', ''B'', ''A''] \<and>
        Get c ''user10'' = Inr ''C'' \<and>
        GetN c ''user10'' 1 = Some (Inr [''C'']) \<and>
        GetN c ''user10'' 2 = Some (Inr [''C'', ''B'']) \<and>
        GetN c ''user10'' 10 = Some (Inr [''C'', ''B'', ''A''])) \<and>
   Add_all (New byte_sum_config) [(''A'', [2]), (''b'', [0])] = Inr ring_A2_b0 \<and>
   index_matches ring_A2_b0 \<and> len_circle ring_A2_b0 = 2 \<and> count ring_A2_b0 = 2 \<and>
   card (fmran' (circle ring_A2_b0)) = 1 \<and>
   search ring_A2_b0 (hashKey ring_A2_b0 ''p'') = 1 \<and>
   ring_walk ring_A2_b0 ''p'' = [''A''] \<and>
   GetN ring_A2_b0 ''p'' 3 = Some (Inr [''A''])"
proof -
  let ?c = "add_result (add_result (add_result (New fnv_config) ''A'' 2) ''B'' 2) ''C'' 2"
  have i: "index_matches ?c" by (rule index_matches_add_result)
  have l: "len_circle ?c \<noteq> 0" by code_simp
  have k: "count ?c = 3" by simp
  have r: "card (fmran' (circle ?c)) = 3" by code_simp
  have w: "ring_walk ?c ''user10'' = [''C'', ''B'', ''A'']" by code_simp
  have c1: "1 \<le> count ?c" by (simp only: k)
  have ok: "min n (count ?c) \<le> int (card (fmran' (circle ?c))) \<or>
            search ?c (hashKey ?c ''user10'') \<noteq> 0" for n
    by (simp only: k r) simp
  note T = GetN_first_members_of_walk[OF i l _ c1 ok]
  from T[of 1] T[of 2] T[of 10]
  have g: "GetN ?c ''user10'' 1 = Some (Inr [''C''])"
    "GetN ?c ''user10'' 2 = Some (Inr [''C'', ''B''])"
    "GetN ?c ''user10'' 10 = Some (Inr [''C'', ''B'', ''A''])"
    "Get ?c ''user10'' = Inr ''C''"
    by (simp_all add: w k)
  have a2: "Add_all (New byte_sum_config) [(''A'', [2]), (''b'', [0])] = Inr ring_A2_b0"
    by (simp add: ring_A2_b0_def Add_absent add_ok rebuild_ok_New_byte_sum)
  have i2: "index_matches ring_A2_b0"
    unfolding ring_A2_b0_def by (rule index_matches_add_result)
  have l2: "len_circle ring_A2_b0 = 2" by code_simp
  have k2: "count ring_A2_b0 = 2" by (simp add: ring_A2_b0_def)
  have r2: "card (fmran' (circle ring_A2_b0)) = 1" by code_simp
  have s2: "search ring_A2_b0 (hashKey ring_A2_b0 ''p'') = 1" by code_simp
  have w2: "ring_walk ring_A2_b0 ''p'' = [''A'']" by code_simp
  have "GetN ring_A2_b0 ''p'' 3 = Some (Inr [''A''])"
    using GetN_first_members_of_walk[of ring_A2_b0 3 "''p''"]
    by (simp add: i2 l2 k2 s2 w2)
  with g i l k r w a2 i2 l2 k2 r2 s2 w2 show ?thesis
    by (simp only: Add_all_fnv_ABC sum.case simp_thms)
qed

lemma length_push_new: "0 < length (push_new res e)"
  by (cases res) (simp_all add: push_new_def)

text \<open>
  C4 as stated fails for \<open>n \<le> 0\<close> and on a ring with a member that owns no position.
  On the ring with members \<open>A\<close> (position 56) and \<open>B\<close> (position 57), \<open>GetN\<close> with
  \<open>n = 0\<close> returns two members for a key served by the second position and never returns
  for a key served by the first one, and with \<open>n = - 1\<close> it panics in the allocation of
  the result.  After \<open>Add a 1\<close> and \<open>Add b 0\<close> the ring holds one position and counts
  two members, and \<open>GetN\<close> with \<open>n = 2\<close> never returns.  After \<open>Add A 2\<close> and \<open>Add b 0\<close>
  with the byte-sum hasher the ring has the two members \<open>A\<close> and \<open>b\<close>, and \<open>GetN\<close> with
  \<open>n = 3\<close> returns the single member \<open>A\<close> for a key served by the second position.
\<close>

theorem GetN_nonpositive_or_positionless_counterexample:
  "Add_all (New byte_sum_config) [(''A'', [1]), (''B'', [1])] = Inr ring_AB \<and>
   len_circle ring_AB = 2 \<and>
   GetN ring_AB ''p'' 0 = Some (Inr [''B'', ''A'']) \<and>
   GetN ring_AB ''z'' 0 = None \<and>
   GetN ring_AB ''p'' (- 1) = Some (Inl PanicMakeslice) \<and>
   Add_all (New default_config) [(''a'', [1]), (''b'', [0])] = Inr ring_a_b0 \<and>
   len_circle ring_a_b0 = 1 \<and> count ring_a_b0 = 2 \<and>
   GetN ring_a_b0 ''k'' 2 = None \<and>
   Add_all (New byte_sum_config) [(''A'', [2]), (''b'', [0])] = Inr ring_A2_b0 \<and>
   Members ring_A2_b0 = [''A'', ''b''] \<and>
   GetN ring_A2_b0 ''p'' 3 = Some (Inr [''A''])"
proof -
  have a: "Add_all (New byte_sum_config) [(''A'', [1]), (''B'', [1])] = Inr ring_AB"
    by (simp add: ring_AB_def Add_absent add_ok rebuild_ok_New_byte_sum)
  have l: "len_circle ring_AB = 2" by code_simp
  have p0: "GetN ring_AB ''p'' 0 = Some (Inr [''B'', ''A''])" by code_simp
  have pm: "GetN ring_AB ''p'' (- 1) = Some (Inl PanicMakeslice)" by code_simp
  have xs: "sortedHashes ring_AB = [56, 57]" by code_simp
  have s: "search ring_AB (hashKey ring_AB ''z'') = 0" by code_simp
  have k: "count ring_AB = 2" by (simp add: ring_AB_def)
  have "GetN_loop ring_AB 0 0 1 [circle_at ring_AB (sortedHashes ring_AB ! 0)] = None"
    by (rule GetN_loop_diverges[where Inv = "\<lambda>_. True"])
       (use length_push_new in \<open>simp_all add: xs\<close>)
  then have z0: "GetN ring_AB ''z'' 0 = None"
    by (simp add: GetN_def Let_def l s k xs)
  let ?h = "hashKey (New default_config) (eltKey ''a'' 0)"
  have b: "Add_all (New default_config) [(''a'', [1]), (''b'', [0])] = Inr ring_a_b0"
    by (simp add: ring_a_b0_def Add_absent add_ok rebuild_ok_New_default)
  have lb: "len_circle ring_a_b0 = 1"
    by (simp add: len_circle_def ring_a_b0_fields fcard_finsert_if)
  have sb: "search ring_a_b0 (hashKey ring_a_b0 ''k'') = 0"
    using search_in_range[of ring_a_b0 "hashKey ring_a_b0 ''k''"]
    by (simp add: ring_a_b0_fields)
  have o: "circle_at ring_a_b0 ?h = ''a''"
    by (simp add: circle_at_def ring_a_b0_fields)
  have "GetN_loop ring_a_b0 2 0 1 [''a''] = None"
    by (rule GetN_loop_diverges[where Inv = "\<lambda>res. res = [''a'']"])
       (simp_all add: owner_at_def ring_a_b0_fields(2) o push_new_def)
  then have kb: "GetN ring_a_b0 ''k'' 2 = None"
    by (simp add: GetN_def Let_def lb sb ring_a_b0_fields(2,3) o)
  have c: "Add_all (New byte_sum_config) [(''A'', [2]), (''b'', [0])] = Inr ring_A2_b0"
    by (simp add: ring_A2_b0_def Add_absent add_ok rebuild_ok_New_byte_sum)
  have mc: "Members ring_A2_b0 = [''A'', ''b'']" by code_simp
  have gc: "GetN ring_A2_b0 ''p'' 3 = Some (Inr [''A''])" by code_simp
  from a l p0 z0 pm b lb kb c mc gc show ?thesis by (simp add: ring_a_b0_fields(3))
qed

section \<open>GetTwo\<close>

text \<open>
  C5.  The code does not do what the claim says on a ring with a member that owns no
  position.  After \<open>Add a 1\<close> and \<open>Add b 0\<close> the ring holds one position and counts two
  members: \<open>Get\<close> returns \<open>a\<close>, and \<open>GetTwo\<close> never returns, for any key.  After
  \<open>Add A 2\<close> and \<open>Add b 0\<close> with the byte-sum hasher, \<open>GetTwo\<close> returns \<open>A\<close> twice for a
  key served by the second position.
\<close>

theorem GetTwo_with_positionless_member:
  "Add_all (New default_config) [(''a'', [1]), (''b'', [0])] = Inr ring_a_b0 \<and>
   len_circle ring_a_b0 = 1 \<and> count ring_a_b0 = 2 \<and>
   Get ring_a_b0 ''k'' = Inr ''a'' \<and>
   GetTwo ring_a_b0 ''k'' = None \<and>
   Add_all (New byte_sum_config) [(''A'', [2]), (''b'', [0])] = Inr ring_A2_b0 \<and>
   GetTwo ring_A2_b0 ''p'' = Some (Inr (''A'', ''A''))"
proof -
  let ?h = "hashKey (New default_config) (eltKey ''a'' 0)"
  have a: "Add_all (New default_config) [(''a'', [1]), (''b'', [0])] = Inr ring_a_b0"
    by (simp add: ring_a_b0_def Add_absent add_ok rebuild_ok_New_default)
  have l: "len_circle ring_a_b0 = 1"
    by (simp add: len_circle_def ring_a_b0_fields fcard_finsert_if)
  have s: "search ring_a_b0 (hashKey ring_a_b0 ''k'') = 0"
    using search_in_range[of ring_a_b0 "hashKey ring_a_b0 ''k''"]
    by (simp add: ring_a_b0_fields)
  have o: "circle_at ring_a_b0 ?h = ''a''"
    by (simp add: circle_at_def ring_a_b0_fields)
  have g: "Get ring_a_b0 ''k'' = Inr ''a''"
    by (simp add: Get_def Let_def l s ring_a_b0_fields(2) o)
  have "GetTwo_loop ring_a_b0 ''a'' 0 1 [] = None"
    by (rule GetTwo_loop_diverges) (simp_all add: owner_at_def ring_a_b0_fields(2) o)
  then have t: "GetTwo ring_a_b0 ''k'' = None"
    by (simp add: GetTwo_def Let_def l s ring_a_b0_fields(2,3) o)
  have a2: "Add_all (New byte_sum_config) [(''A'', [2]), (''b'', [0])] = Inr ring_A2_b0"
    by (simp add: ring_A2_b0_def Add_absent add_ok rebuild_ok_New_byte_sum)
  have t2: "GetTwo ring_A2_b0 ''p'' = Some (Inr (''A'', ''A''))" by code_simp
  from a l g t a2 t2 show ?thesis by (simp add: ring_a_b0_fields(3))
qed

section \<open>Rings built by the operations\<close>

lemma members_counted_New: "members_counted (New conf)"
  by (simp add: members_counted_def fcard_fempty)

lemma members_counted_add_result:
  "members_counted c \<Longrightarrow> elt |\<notin>| fmdom (members c) \<Longrightarrow>
   members_counted (add_result c elt n)"
  by (simp add: members_counted_def fcard_finsert_disjoint)

lemma members_counted_remove_result:
  assumes "members_counted c" and "elt |\<in>| fmdom (members c)"
  shows "members_counted (remove_result c elt n)"
proof -
  from assms(2) have "Suc (fcard (fmdom (members c) |-| {|elt|})) = fcard (fmdom (members c))"
    by (rule fcard_Suc_fminus1)
  then have "int (fcard (fmdom (members c) |-| {|elt|})) = int (fcard (fmdom (members c))) - 1"
    by linarith
  with assms(1) show ?thesis
    by (simp add: members_counted_def)
qed

lemma members_counted_Add:
  "members_counted c \<Longrightarrow> Add c elt rs = Inr c' \<Longrightarrow> members_counted c'"
  by (cases "elt |\<in>| fmdom (members c)")
     (auto simp: Add_present Add_absent add_Inr members_counted_add_result)

lemma members_counted_Remove:
  "members_counted c \<Longrightarrow> Remove c elt = Inr (c', b) \<Longrightarrow> members_counted c'"
  by (cases b) (auto simp: Remove_Inr_True Remove_Inr_False members_counted_remove_result)

lemma members_counted_Set_remove_loop:
  "members_counted c \<Longrightarrow> Set_remove_loop ks elts c = Inr c' \<Longrightarrow> members_counted c'"
proof (induction ks arbitrary: c)
  case Nil
  then show ?case by simp
next
  case (Cons k ks)
  show ?case
  proof (cases "k \<notin> set elts \<and> fmlookup (membersReplicas c) k \<noteq> None")
    case True
    then obtain v where v: "fmlookup (membersReplicas c) k = Some v" by auto
    with True Cons.prems(2)
    have r: "Set_remove_loop ks elts (remove_result c k v) = Inr c'"
      by (auto simp: remove_Inr remove_Inl split: sum.splits)
    from v have "k |\<in>| fmdom (membersReplicas c)" by (rule fmdomI)
    with Cons.prems(1) have "k |\<in>| fmdom (members c)" by (simp add: members_counted_def)
    from Cons.IH[OF members_counted_remove_result[OF Cons.prems(1) this] r] show ?thesis .
  next
    case False
    with Cons.prems(2) have "Set_remove_loop ks elts c = Inr c'"
      by (auto split: option.splits)
    from Cons.IH[OF Cons.prems(1) this] show ?thesis .
  qed
qed

lemma members_counted_Set_add_loop:
  "members_counted c \<Longrightarrow> Set_add_loop vs c = Inr c' \<Longrightarrow> members_counted c'"
proof (induction vs arbitrary: c)
  case Nil
  then show ?case by simp
next
  case (Cons v vs)
  show ?case
  proof (cases "v |\<in>| fmdom (members c)")
    case True
    with Cons.prems(2) have "Set_add_loop vs c = Inr c'" by simp
    from Cons.IH[OF Cons.prems(1) this] show ?thesis .
  next
    case False
    with Cons.prems(2)
    have "Set_add_loop vs (add_result c v (defaultNumberOfReplicas c)) = Inr c'"
      by (auto simp: add_Inr add_Inl split: sum.splits)
    from Cons.IH[OF members_counted_add_result[OF Cons.prems(1) False] this] show ?thesis .
  qed
qed

lemma members_counted_SetWithReplicas_add_loop:
  "members_counted c \<Longrightarrow> SetWithReplicas_add_loop vs c = Inr c' \<Longrightarrow> members_counted c'"
proof (induction vs arbitrary: c)
  case Nil
  then show ?case by simp
next
  case (Cons v vs)
  show ?case
  proof (cases "Elt v |\<in>| fmdom (members c)")
    case True
    with Cons.prems(2) have "SetWithReplicas_add_loop vs c = Inr c'" by simp
    from Cons.IH[OF Cons.prems(1) this] show ?thesis .
  next
    case False
    with Cons.prems(2) obtain n
      where "SetWithReplicas_add_loop vs (add_result c (Elt v) n) = Inr c'"
      by (auto simp: add_Inr add_Inl Let_def split: sum.splits if_splits)
    from Cons.IH[OF members_counted_add_result[OF Cons.prems(1) False] this] show ?thesis .
  qed
qed

lemma built_invariants:
  "built c \<Longrightarrow> index_matches c \<and> members_counted c"
proof (induction rule: built.induct)
  case (by_New conf)
  show ?case by (simp add: index_matches_New members_counted_New)
next
  case (by_Add c elt rs c')
  then show ?case using index_matches_Add members_counted_Add by blast
next
  case (by_Remove c elt c' b)
  then show ?case using index_matches_Remove members_counted_Remove by blast
next
  case (by_Set c ks elts c')
  then show ?case
    by (auto simp: Set_from_def split: sum.splits
        dest: index_matches_Set_remove_loop index_matches_Set_add_loop
          members_counted_Set_remove_loop members_counted_Set_add_loop)
next
  case (by_SetWithReplicas c ks selts c')
  then show ?case
    by (auto simp: SetWithReplicas_from_def split: sum.splits
        dest: index_matches_Set_remove_loop index_matches_SetWithReplicas_add_loop
          members_counted_Set_remove_loop members_counted_SetWithReplicas_add_loop)
qed

lemma positions_recorded_New: "positions_recorded (New conf)"
  by (simp add: positions_recorded_def New_def)

lemma positions_recorded_add_result:
  assumes p: "positions_recorded c" and e: "elt |\<notin>| fmdom (members c)"
  shows "positions_recorded (add_result c elt n)"
  unfolding positions_recorded_def
proof (intro allI impI)
  fix h m
  assume l: "fmlookup (circle (add_result c elt n)) h = Some m"
  show "m |\<in>| fmdom (members (add_result c elt n)) \<and>
        (\<exists>r. fmlookup (membersReplicas (add_result c elt n)) m = Some r \<and>
             h \<in> replica_positions (add_result c elt n) m r)"
  proof (cases "h \<in> replica_positions c elt n")
    case True
    with l have "m = elt" by (simp add: add_result_lookup)
    with True show ?thesis by simp
  next
    case False
    with l have o: "fmlookup (circle c) h = Some m" by (simp add: add_result_lookup)
    with p have mm: "m |\<in>| fmdom (members c)"
      and "\<exists>r. fmlookup (membersReplicas c) m = Some r \<and> h \<in> replica_positions c m r"
      by (simp_all add: positions_recorded_def)
    moreover from mm e have "m \<noteq> elt" by auto
    ultimately show ?thesis by simp
  qed
qed

lemma positions_recorded_remove_result:
  assumes p: "positions_recorded c" and r: "fmlookup (membersReplicas c) elt = Some n"
  shows "positions_recorded (remove_result c elt n)"
  unfolding positions_recorded_def
proof (intro allI impI)
  fix h m
  assume l: "fmlookup (circle (remove_result c elt n)) h = Some m"
  then have nh: "h \<notin> replica_positions c elt n" and o: "fmlookup (circle c) h = Some m"
    by (simp_all add: remove_result_lookup split: if_splits)
  from o p have mm: "m |\<in>| fmdom (members c)"
    and ex: "\<exists>r. fmlookup (membersReplicas c) m = Some r \<and> h \<in> replica_positions c m r"
    by (simp_all add: positions_recorded_def)
  from ex r nh have "m \<noteq> elt" by auto
  with mm ex
  show "m |\<in>| fmdom (members (remove_result c elt n)) \<and>
        (\<exists>r. fmlookup (membersReplicas (remove_result c elt n)) m = Some r \<and>
             h \<in> replica_positions (remove_result c elt n) m r)"
    by simp
qed

lemma positions_recorded_Add:
  "positions_recorded c \<Longrightarrow> Add c elt rs = Inr c' \<Longrightarrow> positions_recorded c'"
  by (cases "elt |\<in>| fmdom (members c)")
     (auto simp: Add_present Add_absent add_Inr positions_recorded_add_result)

lemma positions_recorded_Remove:
  "positions_recorded c \<Longrightarrow> Remove c elt = Inr (c', b) \<Longrightarrow> positions_recorded c'"
  by (cases b) (auto simp: Remove_Inr_True Remove_Inr_False positions_recorded_remove_result)

lemma positions_recorded_Set_remove_loop:
  "positions_recorded c \<Longrightarrow> Set_remove_loop ks elts c = Inr c' \<Longrightarrow> positions_recorded c'"
proof (induction ks arbitrary: c)
  case Nil
  then show ?case by simp
next
  case (Cons k ks)
  show ?case
  proof (cases "k \<notin> set elts \<and> fmlookup (membersReplicas c) k \<noteq> None")
    case True
    then obtain v where v: "fmlookup (membersReplicas c) k = Some v" by auto
    with True Cons.prems(2)
    have r: "Set_remove_loop ks elts (remove_result c k v) = Inr c'"
      by (auto simp: remove_Inr remove_Inl split: sum.splits)
    from Cons.IH[OF positions_recorded_remove_result[OF Cons.prems(1) v] r] show ?thesis .
  next
    case False
    with Cons.prems(2) have "Set_remove_loop ks elts c = Inr c'"
      by (auto split: option.splits)
    from Cons.IH[OF Cons.prems(1) this] show ?thesis .
  qed
qed

lemma positions_recorded_Set_add_loop:
  "positions_recorded c \<Longrightarrow> Set_add_loop vs c = Inr c' \<Longrightarrow> positions_recorded c'"
proof (induction vs arbitrary: c)
  case Nil
  then show ?case by simp
next
  case (Cons v vs)
  show ?case
  proof (cases "v |\<in>| fmdom (members c)")
    case True
    with Cons.prems(2) have "Set_add_loop vs c = Inr c'" by simp
    from Cons.IH[OF Cons.prems(1) this] show ?thesis .
  next
    case False
    with Cons.prems(2)
    have "Set_add_loop vs (add_result c v (defaultNumberOfReplicas c)) = Inr c'"
      by (auto simp: add_Inr add_Inl split: sum.splits)
    from Cons.IH[OF positions_recorded_add_result[OF Cons.prems(1) False] this] show ?thesis .
  qed
qed

lemma positions_recorded_SetWithReplicas_add_loop:
  "positions_recorded c \<Longrightarrow> SetWithReplicas_add_loop vs c = Inr c' \<Longrightarrow> positions_recorded c'"
proof (induction vs arbitrary: c)
  case Nil
  then show ?case by simp
next
  case (Cons v vs)
  show ?case
  proof (cases "Elt v |\<in>| fmdom (members c)")
    case True
    with Cons.prems(2) have "SetWithReplicas_add_loop vs c = Inr c'" by simp
    from Cons.IH[OF Cons.prems(1) this] show ?thesis .
  next
    case False
    with Cons.prems(2) obtain n
      where "SetWithReplicas_add_loop vs (add_result c (Elt v) n) = Inr c'"
      by (auto simp: add_Inr add_Inl Let_def split: sum.splits if_splits)
    from Cons.IH[OF positions_recorded_add_result[OF Cons.prems(1) False] this] show ?thesis .
  qed
qed

lemma built_positions_recorded:
  "built c \<Longrightarrow> positions_recorded c"
proof (induction rule: built.induct)
  case (by_New conf)
  show ?case by (rule positions_recorded_New)
next
  case (by_Add c elt rs c')
  then show ?case using positions_recorded_Add by blast
next
  case (by_Remove c elt c' b)
  then show ?case using positions_recorded_Remove by blast
next
  case (by_Set c ks elts c')
  then show ?case
    by (auto simp: Set_from_def split: sum.splits
        dest: positions_recorded_Set_remove_loop positions_recorded_Set_add_loop)
next
  case (by_SetWithReplicas c ks selts c')
  then show ?case
    by (auto simp: SetWithReplicas_from_def split: sum.splits
        dest: positions_recorded_Set_remove_loop positions_recorded_SetWithReplicas_add_loop)
qed

lemma built_owners_are_members:
  assumes "built c"
  shows "fmran' (circle c) \<subseteq> fmdom' (members c)"
  using built_positions_recorded[OF assms]
  by (auto simp: positions_recorded_def fmlookup_ran'_iff fmdom'_alt_def)

lemma built_owners_counted:
  assumes "built c"
  shows "int (card (fmran' (circle c))) \<le> count c"
proof -
  from built_invariants[OF assms] have "count c = int (fcard (fmdom (members c)))"
    by (simp add: members_counted_def)
  also have "fcard (fmdom (members c)) = card (fmdom' (members c))"
    by (simp add: fcard.rep_eq fmdom'_alt_def)
  finally have "count c = int (card (fmdom' (members c)))" .
  moreover have "card (fmran' (circle c)) \<le> card (fmdom' (members c))"
    by (rule card_mono[OF _ built_owners_are_members[OF assms]]) (simp add: fmdom'_alt_def)
  ultimately show ?thesis by simp
qed

lemma built_count_positive:
  assumes b: "built c" and ne: "len_circle c \<noteq> 0"
  shows "1 \<le> count c"
proof -
  from ne have "circle c \<noteq> fmempty" by (simp add: len_circle_0)
  then obtain h m where "fmlookup (circle c) h = Some m"
    by (metis fmap_ext fmempty_lookup not_None_eq)
  then have "m \<in> fmran' (circle c)" by (auto simp: fmlookup_ran'_iff)
  moreover have "finite (fmran' (circle c))"
    by (rule finite_subset[OF built_owners_are_members[OF b]]) (simp add: fmdom'_alt_def)
  ultimately have "0 < card (fmran' (circle c))" by (auto simp: card_gt_0_iff)
  with built_owners_counted[OF b] show ?thesis by simp
qed

lemma built_replicas_recorded: "built c \<Longrightarrow> replicas_recorded c"
  using built_invariants[of c] by (simp add: members_counted_def replicas_recorded_def)

lemma built_API:
  "built c \<Longrightarrow> Set c elts = Inr c' \<Longrightarrow> built c'"
  "built c \<Longrightarrow> SetWithReplicas c selts = Inr c' \<Longrightarrow> built c'"
  unfolding Set_def SetWithReplicas_def
  by (erule built.by_Set built.by_SetWithReplicas; simp add: fmdom'_alt_def)+

section \<open>The loop of \<open>GetTwo\<close> in closed form\<close>

lemma GetTwo_loop_stop: "GetTwo_loop c a start start b = Some (Inr b)"
  by (subst GetTwo_loop.simps) simp

lemma GetTwo_loop_step:
  assumes "i \<noteq> start" and "i < length (sortedHashes c)"
  shows "GetTwo_loop c a start i b =
     (if owner_at c i \<noteq> a then Some (Inr (owner_at c i))
      else GetTwo_loop c a start (i + 1) (owner_at c i))"
  using assms by (subst GetTwo_loop.simps) (simp add: Let_def owner_at_def)

lemma GetTwo_loop_wrap:
  assumes "i \<noteq> start" and "length (sortedHashes c) \<le> i" and "sortedHashes c \<noteq> []"
  shows "GetTwo_loop c a start i b =
     (if owner_at c 0 \<noteq> a then Some (Inr (owner_at c 0))
      else GetTwo_loop c a start 1 (owner_at c 0))"
  using assms by (subst GetTwo_loop.simps) (simp add: Let_def owner_at_def)

lemma GetTwo_loop_find:
  assumes st: "start < length (sortedHashes c)"
  shows "ps = pending (length (sortedHashes c)) start i \<Longrightarrow>
    1 \<le> i \<Longrightarrow> i \<le> length (sortedHashes c) \<Longrightarrow>
    find (\<lambda>e. e \<noteq> a) (map (owner_at c) ps) = Some e \<Longrightarrow>
    GetTwo_loop c a start i b = Some (Inr e)"
proof (induction ps arbitrary: i b)
  case Nil
  then show ?case by simp
next
  case (Cons j rest)
  let ?len = "length (sortedHashes c)"
  have ne: "sortedHashes c \<noteq> []" using st by auto
  show ?case
  proof (cases "start < i")
    case A: True
    show ?thesis
    proof (cases "i < ?len")
      case True
      have p: "pending ?len start i = i # pending ?len start (i + 1)"
        using A True by (simp add: pending_def upt_conv_Cons)
      with Cons.prems(1) have j: "j = i" and rest: "rest = pending ?len start (i + 1)"
        by simp_all
      have ineq: "i \<noteq> start" using A by simp
      show ?thesis
      proof (cases "owner_at c i \<noteq> a")
        case True
        with Cons.prems(4) show ?thesis
          by (simp add: GetTwo_loop_step[OF ineq \<open>i < ?len\<close>] j)
      next
        case False
        with Cons.prems(4) have f: "find (\<lambda>e. e \<noteq> a) (map (owner_at c) rest) = Some e"
          by (simp add: j)
        have "GetTwo_loop c a start (i + 1) (owner_at c i) = Some (Inr e)"
          by (rule Cons.IH[OF rest _ _ f]) (use True in simp_all)
        with False show ?thesis
          by (simp add: GetTwo_loop_step[OF ineq \<open>i < ?len\<close>])
      qed
    next
      case False
      with Cons.prems(3) have il: "i = ?len" by simp
      have "pending ?len start i = [0..<start]" using A il by (simp add: pending_def)
      with Cons.prems(1) have "j # rest = [0..<start]" by simp
      from Cons_eq_upt[OF this]
      have s0: "0 < start" and j: "j = 0" and r0: "rest = [1..<start]"
        by simp_all
      have rest: "rest = pending ?len start 1" using s0 r0 by (simp add: pending_def)
      have ineq: "i \<noteq> start" using A by simp
      have ge: "?len \<le> i" using il by simp
      show ?thesis
      proof (cases "owner_at c 0 \<noteq> a")
        case True
        with Cons.prems(4) show ?thesis
          by (simp add: GetTwo_loop_wrap[OF ineq ge ne] j)
      next
        case False
        with Cons.prems(4) have f: "find (\<lambda>e. e \<noteq> a) (map (owner_at c) rest) = Some e"
          by (simp add: j)
        have "GetTwo_loop c a start 1 (owner_at c 0) = Some (Inr e)"
          by (rule Cons.IH[OF rest _ _ f]) (use st in simp_all)
        with False show ?thesis
          by (simp add: GetTwo_loop_wrap[OF ineq ge ne])
      qed
    qed
  next
    case B: False
    then have "pending ?len start i = [i..<start]" by (simp add: pending_def)
    with Cons.prems(1) have "j # rest = [i..<start]" by simp
    from Cons_eq_upt[OF this]
    have lt: "i < start" and j: "j = i" and r0: "rest = [i + 1..<start]"
      by simp_all
    have rest: "rest = pending ?len start (i + 1)" using lt r0 by (simp add: pending_def)
    have ineq: "i \<noteq> start" using lt by simp
    have il: "i < ?len" using lt st by simp
    show ?thesis
    proof (cases "owner_at c i \<noteq> a")
      case True
      with Cons.prems(4) show ?thesis
        by (simp add: GetTwo_loop_step[OF ineq il] j)
    next
      case False
      with Cons.prems(4) have f: "find (\<lambda>e. e \<noteq> a) (map (owner_at c) rest) = Some e"
        by (simp add: j)
      have "GetTwo_loop c a start (i + 1) (owner_at c i) = Some (Inr e)"
        by (rule Cons.IH[OF rest _ _ f]) (use il in simp_all)
      with False show ?thesis
        by (simp add: GetTwo_loop_step[OF ineq il])
    qed
  qed
qed

lemma find_first_other:
  "filter (\<lambda>y. y \<noteq> a) ws \<noteq> [] \<Longrightarrow>
   find (\<lambda>e. e \<noteq> a) ws = Some (hd (first_occurrences (filter (\<lambda>y. y \<noteq> a) ws)))"
proof (induction ws)
  case Nil
  then show ?case by simp
next
  case (Cons w ws)
  then show ?case by (cases "w = a") simp_all
qed

text \<open>
  Where every counted member owns a position, \<open>GetTwo\<close> returns the first two members
  of the walk, and the first one with an empty second when one member is counted.
\<close>

lemma GetTwo_returns_walk:
  assumes m: "index_matches c" and ne: "len_circle c \<noteq> 0"
    and cnt: "count c = int (card (fmran' (circle c)))"
  shows "GetTwo c name =
         Some (Inr (hd (ring_walk c name),
                    if count c = 1 then [] else ring_walk c name ! 1))"
proof -
  let ?len = "length (sortedHashes c)"
  define start where "start = search c (hashKey c name)"
  define a where "a = owner_at c start"
  define ws where "ws = map (owner_at c) (pending ?len start (start + 1))"
  from index_matches_nonempty[OF m ne] have nxs: "sortedHashes c \<noteq> []" .
  have st: "start < ?len"
    unfolding start_def by (rule search_in_range[OF nxs])
  have walk: "ring_walk c name = a # first_occurrences (filter (\<lambda>y. y \<noteq> a) ws)"
    unfolding a_def ws_def start_def by (rule ring_walk_unfold[OF m ne])
  have lw: "int (length (ring_walk c name)) = count c"
    by (simp add: length_ring_walk[OF m ne] cnt)
  have G: "GetTwo c name =
      (if count c = 1 then Some (Inr (a, []))
       else (case GetTwo_loop c a start (start + 1) [] of
               None \<Rightarrow> None
             | Some (Inl e) \<Rightarrow> Some (Inl e)
             | Some (Inr b) \<Rightarrow> Some (Inr (a, b))))"
    using ne st
    by (simp add: GetTwo_def Let_def start_def[symmetric] a_def owner_at_def
        cong: option.case_cong sum.case_cong)
  show ?thesis
  proof (cases "count c = 1")
    case True
    then show ?thesis unfolding G by (simp add: walk)
  next
    case False
    with lw walk have "first_occurrences (filter (\<lambda>y. y \<noteq> a) ws) \<noteq> []"
      by (cases "first_occurrences (filter (\<lambda>y. y \<noteq> a) ws)") auto
    then have fne: "filter (\<lambda>y. y \<noteq> a) ws \<noteq> []"
      by (cases "filter (\<lambda>y. y \<noteq> a) ws") auto
    let ?e = "hd (first_occurrences (filter (\<lambda>y. y \<noteq> a) ws))"
    have f: "find (\<lambda>e. e \<noteq> a) ws = Some ?e"
      by (rule find_first_other[OF fne])
    have "GetTwo_loop c a start (start + 1) [] = Some (Inr ?e)"
    proof (rule GetTwo_loop_find[OF st refl])
      show "1 \<le> start + 1" by simp
      show "start + 1 \<le> ?len" using st by simp
      show "find (\<lambda>e. e \<noteq> a) (map (owner_at c) (pending ?len start (start + 1))) = Some ?e"
        using f unfolding ws_def .
    qed
    moreover have "ring_walk c name ! 1 = ?e"
      using \<open>first_occurrences (filter (\<lambda>y. y \<noteq> a) ws) \<noteq> []\<close>
      by (simp add: walk hd_conv_nth)
    ultimately show ?thesis unfolding G using False by (simp add: walk)
  qed
qed

section \<open>When the rebuild panics\<close>

lemma mul_int64_4_zero: "mul_int64 d 4 = 0 \<longleftrightarrow> d mod 2 ^ 62 = 0"
proof -
  have "mul_int64 d 4 = 0 \<longleftrightarrow> (d * 4 + 2 ^ 63) mod 2 ^ 64 = (2 ^ 63 :: int)"
    by (simp add: mul_int64_def)
  also have "\<dots> \<longleftrightarrow> (2 ^ 64 :: int) dvd d * 4"
  proof -
    have "(d * 4 + 2 ^ 63) mod 2 ^ 64 = (2 ^ 63 :: int) \<longleftrightarrow>
          (d * 4 + 2 ^ 63) mod 2 ^ 64 = 2 ^ 63 mod (2 ^ 64 :: int)"
      by simp
    also have "\<dots> \<longleftrightarrow> (2 ^ 64 :: int) dvd (d * 4 + 2 ^ 63) - 2 ^ 63"
      by (rule mod_eq_dvd_iff)
    finally show ?thesis by simp
  qed
  also have "\<dots> \<longleftrightarrow> (2 ^ 62 :: int) dvd d"
  proof -
    have "(2 ^ 64 :: int) = 2 ^ 62 * 4" by simp
    then show ?thesis by (simp only: mult_dvd_mono dvd_mult_cancel_right) simp
  qed
  also have "\<dots> \<longleftrightarrow> d mod 2 ^ 62 = 0"
    by (simp add: dvd_eq_mod_eq_0)
  finally show ?thesis .
qed

lemma rebuild_ok_iff: "rebuild_ok c \<longleftrightarrow> defaultNumberOfReplicas c mod 2 ^ 62 \<noteq> 0"
  by (simp add: rebuild_ok_def mul_int64_4_zero)

lemma rebuild_panics_at_2_62:
  "Add (New \<lparr>DefaultNumberOfReplicas = 2 ^ 62, UseFnv = False, CustomHasher = None\<rparr>) ''a'' [1]
     = Inl PanicDivideByZero"
  by (simp add: Add_absent add_panic rebuild_ok_iff New_def)

end
